theory Spec2Isabelle
  imports Main "HOL-Library.Word" "HOL-Library.Multiset"
begin

section \<open>Default host process of a macro command\<close>

text \<open>
  \<^verbatim>\<open>getDefaultProcess\<close> looks the target operating system up in the table
  \<^verbatim>\<open>defaultHostProc\<close>. The three constants and the table are the source's; the
  Windows path is a raw Go string, so each backslash is one character (code 0x5C).
\<close>

definition windowsDefaultHostProc :: string where
  "windowsDefaultHostProc =
     ''c:'' @ [CHR 0x5C] @ ''windows'' @ [CHR 0x5C] @ ''system32'' @ [CHR 0x5C] @ ''notepad.exe''"

definition linuxDefaultHostProc :: string where
  "linuxDefaultHostProc = ''/bin/bash''"

definition macosDefaultHostProc :: string where
  "macosDefaultHostProc = ''/Applications/Safari.app/Contents/MacOS/SafariForWebKitDevelopment''"

definition defaultHostProc :: "string \<rightharpoonup> string" where
  "defaultHostProc =
     [''windows'' \<mapsto> windowsDefaultHostProc,
      ''linux'' \<mapsto> windowsDefaultHostProc,
      ''darwin'' \<mapsto> macosDefaultHostProc]"

text \<open>
  The function returns the pair \<open>(proc, err)\<close>: a missing key leaves \<open>proc\<close> at Go's zero
  value, the empty string, and sets the error built by \<^verbatim>\<open>fmt.Errorf\<close>. The receiver is
  not read.
\<close>

definition getDefaultProcess :: "string \<Rightarrow> string \<times> string option" where
  "getDefaultProcess targetOS =
     (case defaultHostProc targetOS of
        Some proc \<Rightarrow> (proc, None)
      | None \<Rightarrow> ([], Some (''no default process for '' @ targetOS @ '' target, please specify one'')))"

section \<open>Jobs, the registry and the event broker\<close>

text \<open>
  A \<^verbatim>\<open>core.Job\<close> as the struct literal of \<^verbatim>\<open>jobStartClientListener\<close> fills it. The port
  is a \<^verbatim>\<open>uint16\<close>. A Go channel is a reference: \<open>JobCtrl\<close> holds the address of the
  channel in the store of channels below.
\<close>

type_synonym chan = nat
type_synonym listener = nat

datatype error = TransportError string | NotFound

record Job =
  ID :: int
  Name :: string
  Description :: string
  Protocol :: string
  Port :: "16 word"
  JobCtrl :: chan

text \<open>
  Modelled from the spec: the event type of \<^verbatim>\<open>core.Event\<close> is not part of the sources at
  hand. The spec's closed set of event kinds (job started, job stopped, and the kinds of
  the external collaborators) is a datatype.
\<close>

datatype EventType =
  JobStarted | JobStopped | SessionConnected | SessionDisconnected
  | BeaconRegistered | OperatorJoined | Canceled

text \<open>
  Modelled from the spec: the constant \<^verbatim>\<open>consts.StoppedEvent\<close> is not part of the sources
  at hand. It is the kind of the "job stopped" event that the supervising task publishes.
\<close>

definition StoppedEvent :: EventType where
  "StoppedEvent = JobStopped"

text \<open>The two fields of \<^verbatim>\<open>core.Event\<close> that the listener sets.\<close>

record Event =
  Job :: Job
  EventType :: EventType

text \<open>
  The supervising goroutine of a job is a closure over \<open>job\<close> and \<open>ln\<close>. Its program
  counter names the statement it executes next: the receive on \<open>job.JobCtrl\<close>, the log
  line, \<open>ln.Close()\<close>, \<open>core.Jobs.RemoveJob(job)\<close>, \<open>core.EventBroker.Publish(...)\<close>, and
  the end of the body.
\<close>

datatype pc = AwaitStop | LogStop | CloseListener | Deregister | Announce | Finished

record task =
  tjob :: Job
  tln :: listener
  tpc :: pc

text \<open>
  Every effect is also written to a trace, with the thread that performed it: the thread
  that called into the console (\<open>Caller\<close>) or the supervising goroutine number \<open>k\<close>.
\<close>

datatype actor = Caller | Task nat

datatype console_msg = MultiplayerEnabled | FailedToStartJob error

datatype action =
  Bound string "16 word"
  | Allocated int
  | ChanMade chan
  | Spawned nat
  | Registered Job
  | Sent chan bool
  | Received chan
  | Logged int
  | Closed listener
  | Removed Job
  | Published Event
  | Printed console_msg

text \<open>
  The state of the server process: the counter behind \<^verbatim>\<open>core.GetJobID\<close>, the map
  \<^verbatim>\<open>core.Jobs.Active\<close>, the events handed to \<^verbatim>\<open>core.EventBroker\<close> in order, the store of
  channels (for each address the values offered by senders and not yet received), the
  listeners closed so far, the goroutines, and the trace.
\<close>

record state =
  jobID :: int
  Active :: "int \<rightharpoonup> Job"
  published :: "Event list"
  nchans :: nat
  chans :: "chan \<Rightarrow> bool list"
  closed :: "listener list"
  tasks :: "task list"
  trace :: "(actor \<times> action) list"

text \<open>
  Modelled from the spec: the initial values of the core's variables are not part of the
  sources at hand. The allocator starts so that the first identifier is 1, the registry
  is empty, and nothing has happened yet.
\<close>

definition init :: state where
  "init = \<lparr>jobID = 0, Active = Map.empty, published = [], nchans = 0,
           chans = (\<lambda>_. []), closed = [], tasks = [], trace = []\<rparr>"

definition emit :: "actor \<Rightarrow> action \<Rightarrow> state \<Rightarrow> state" where
  "emit who a s = s\<lparr>trace := trace s @ [(who, a)]\<rparr>"

text \<open>
  Modelled from the spec: \<^verbatim>\<open>core.GetJobID\<close> is not part of the sources at hand. The spec's
  identifier allocator returns a strictly increasing integer on every call, starting from
  1: the counter is incremented and its new value returned, in one indivisible step.
\<close>

definition GetJobID :: "actor \<Rightarrow> state \<Rightarrow> int \<times> state" where
  "GetJobID who s =
     (let newID = jobID s + 1
      in (newID, emit who (Allocated newID) (s\<lparr>jobID := newID\<rparr>)))"

text \<open>\<^verbatim>\<open>make(chan bool)\<close>: a new, empty channel at the next free address.\<close>

definition make_chan :: "actor \<Rightarrow> state \<Rightarrow> chan \<times> state" where
  "make_chan who s =
     (let c = nchans s
      in (c, emit who (ChanMade c) (s\<lparr>nchans := Suc c, chans := (chans s)(c := [])\<rparr>)))"

text \<open>A send offers a value on the channel; a receive takes the oldest offer.\<close>

definition send :: "actor \<Rightarrow> chan \<Rightarrow> bool \<Rightarrow> state \<Rightarrow> state" where
  "send who c v s = emit who (Sent c v) (s\<lparr>chans := (chans s)(c := chans s c @ [v])\<rparr>)"

text \<open>The \<^verbatim>\<open>go\<close> statement: a new goroutine, at the first statement of its body.\<close>

definition go :: "actor \<Rightarrow> Job \<Rightarrow> listener \<Rightarrow> state \<Rightarrow> state" where
  "go who job ln s =
     emit who (Spawned (length (tasks s)))
       (s\<lparr>tasks := tasks s @ [\<lparr>tjob = job, tln = ln, tpc = AwaitStop\<rparr>]\<rparr>)"

text \<open>
  Modelled from the spec: \<^verbatim>\<open>core.Jobs.AddJob\<close> is not part of the sources at hand. The
  registry's \<open>add(job)\<close> inserts the job under its identifier and fails only on a
  duplicate identifier, a fatal invariant violation: \<open>None\<close> is the terminated process.
\<close>

definition AddJob :: "actor \<Rightarrow> Job \<Rightarrow> state \<Rightarrow> state option" where
  "AddJob who job s =
     (case Active s (ID job) of
        Some _ \<Rightarrow> None
      | None \<Rightarrow> Some (emit who (Registered job) (s\<lparr>Active := (Active s)(ID job \<mapsto> job)\<rparr>)))"

text \<open>
  Modelled from the spec: \<^verbatim>\<open>core.Jobs.RemoveJob\<close> is not part of the sources at hand. The
  registry's \<open>remove(job)\<close> deletes the entry if present and is a no-op otherwise.
\<close>

definition RemoveJob :: "actor \<Rightarrow> Job \<Rightarrow> state \<Rightarrow> state" where
  "RemoveJob who job s = emit who (Removed job) (s\<lparr>Active := (Active s)(ID job := None)\<rparr>)"

text \<open>
  Modelled from the spec: \<^verbatim>\<open>core.EventBroker.Publish\<close> is not part of the sources at
  hand. \<open>publish(event)\<close> hands the event to the broker, which relays it and keeps no
  history; the model records the events handed over, in publish order.
\<close>

definition Publish :: "actor \<Rightarrow> Event \<Rightarrow> state \<Rightarrow> state" where
  "Publish who ev s = emit who (Published ev) (s\<lparr>published := published s @ [ev]\<rparr>)"

text \<open>\<^verbatim>\<open>ln.Close()\<close> of the transport; the error it returns is dropped by the caller.\<close>

definition Close :: "actor \<Rightarrow> listener \<Rightarrow> state \<Rightarrow> state" where
  "Close who ln s = emit who (Closed ln) (s\<lparr>closed := closed s @ [ln]\<rparr>)"

section \<open>The client listener job\<close>

text \<open>
  \<^verbatim>\<open>jobStartClientListener\<close>. The transport's \<^verbatim>\<open>StartClientListener\<close> is a collaborator
  outside the sources: it is a parameter that answers with an error or a listener. The
  result is the pair \<open>(int, error)\<close> of the source with the new state, or \<open>None\<close> when
  the registry terminated the process. As in the source, the goroutine is started by the
  \<^verbatim>\<open>go\<close> statement before \<^verbatim>\<open>core.Jobs.AddJob(job)\<close> is called.
\<close>

definition jobStartClientListener ::
  "(string \<Rightarrow> 16 word \<Rightarrow> error + listener) \<Rightarrow> string \<Rightarrow> 16 word \<Rightarrow> state
     \<Rightarrow> ((int \<times> error option) \<times> state) option" where
  "jobStartClientListener StartClientListener bindIface port s =
     (let s1 = emit Caller (Bound bindIface port) s
      in case StartClientListener bindIface port of
           Inl err \<Rightarrow> Some ((- 1, Some err), s1)
         | Inr ln \<Rightarrow>
             (let (newID, s2) = GetJobID Caller s1;
                  (ch, s3) = make_chan Caller s2;
                  job = \<lparr>ID = newID, Name = ''rpc'', Description = ''client listener'',
                         Protocol = ''tcp'', Port = port, JobCtrl = ch\<rparr>;
                  s4 = go Caller job ln s3
              in case AddJob Caller job s4 of
                   None \<Rightarrow> None
                 | Some s5 \<Rightarrow> Some ((ID job, None), s5)))"

text \<open>
  One statement of the goroutine body of \<^verbatim>\<open>jobStartClientListener\<close>, executed by goroutine
  \<open>k\<close>. The receive blocks (the state stays as it is) while nothing is offered on the
  channel. A goroutine that does not exist, or whose body has ended, does nothing.
\<close>

definition task_step :: "nat \<Rightarrow> state \<Rightarrow> state" where
  "task_step k s =
     (if length (tasks s) \<le> k then s
      else
        let t = tasks s ! k;
            job = tjob t;
            advance = (\<lambda>p s'. s'\<lparr>tasks := (tasks s')[k := t\<lparr>tpc := p\<rparr>]\<rparr>)
        in case tpc t of
             AwaitStop \<Rightarrow>
               (case chans s (JobCtrl job) of
                  [] \<Rightarrow> s
                | v # vs \<Rightarrow>
                    advance LogStop
                      (emit (Task k) (Received (JobCtrl job))
                         (s\<lparr>chans := (chans s)(JobCtrl job := vs)\<rparr>)))
           | LogStop \<Rightarrow> advance CloseListener (emit (Task k) (Logged (ID job)) s)
           | CloseListener \<Rightarrow> advance Deregister (Close (Task k) (tln t) s)
           | Deregister \<Rightarrow> advance Announce (RemoveJob (Task k) job s)
           | Announce \<Rightarrow>
               advance Finished
                 (Publish (Task k) \<lparr>Job = job, EventType = StoppedEvent\<rparr> s)
           | Finished \<Rightarrow> s)"

text \<open>
  Modelled from the spec: \<open>StopJob\<close> is not part of the sources at hand. It fails with
  not-found if the identifier is absent from the registry; otherwise it signals the stop
  channel of the job once. The value sent stays offered on the channel until the
  supervising goroutine receives it.
\<close>

definition StopJob :: "int \<Rightarrow> state \<Rightarrow> error option \<times> state" where
  "StopJob i s =
     (case Active s i of
        None \<Rightarrow> (Some NotFound, s)
      | Some job \<Rightarrow> (None, send Caller (JobCtrl job) True s))"

text \<open>
  \<^verbatim>\<open>startMultiplayerModeCmd\<close>. The grumble context gives the flags by name; a Go \<open>int\<close> is
  64 bits wide on the platforms the server is built for, and \<^verbatim>\<open>uint16(...)\<close> keeps its low
  16 bits. The two messages printed are recorded in the trace.
\<close>

record Context =
  FlagsString :: "string \<Rightarrow> string"
  FlagsInt :: "string \<Rightarrow> 64 word"

definition startMultiplayerModeCmd ::
  "(string \<Rightarrow> 16 word \<Rightarrow> error + listener) \<Rightarrow> Context \<Rightarrow> state \<Rightarrow> state option" where
  "startMultiplayerModeCmd StartClientListener ctx s =
     (let server = FlagsString ctx ''server'';
          lport = (ucast (FlagsInt ctx ''lport'') :: 16 word)
      in case jobStartClientListener StartClientListener server lport s of
           None \<Rightarrow> None
         | Some ((_, err), s') \<Rightarrow>
             (case err of
                None \<Rightarrow> Some (emit Caller (Printed MultiplayerEnabled) s')
              | Some e \<Rightarrow> Some (emit Caller (Printed (FailedToStartJob e)) s')))"

section \<open>Executions of the server\<close>

text \<open>
  What the environment can make the process do: an operator starts the listener (the
  transport's answer to the bind is part of the call), an operator stops a job, or the
  scheduler lets a goroutine execute its next statement. An execution is any finite
  sequence of these from the initial state. A call of an operator runs without
  interruption, and the goroutines interleave statement by statement: the goroutine that
  a call starts cannot pass its receive before the call has returned, since only
  \<open>StopJob\<close> sends on a stop channel and it finds the channel through the registry.
\<close>

datatype call =
  StartListener string "16 word" "error + listener"
  | StartCmd Context "error + listener"
  | Stop int
  | Sched nat

fun exec :: "call \<Rightarrow> state \<Rightarrow> state option" where
  "exec (StartListener bindIface port r) s =
     map_option snd (jobStartClientListener (\<lambda>_ _. r) bindIface port s)"
| "exec (StartCmd ctx r) s = startMultiplayerModeCmd (\<lambda>_ _. r) ctx s"
| "exec (Stop i) s = Some (snd (StopJob i s))"
| "exec (Sched k) s = Some (task_step k s)"

fun run :: "call list \<Rightarrow> state \<Rightarrow> state option" where
  "run [] s = Some s"
| "run (c # cs) s = (case exec c s of None \<Rightarrow> None | Some s' \<Rightarrow> run cs s')"

text \<open>
  Two transports for concrete scenarios: one whose bind always succeeds with the listener
  \<open>ln\<close>, and one whose bind is always refused.
\<close>

definition bind_ok :: "listener \<Rightarrow> string \<Rightarrow> 16 word \<Rightarrow> error + listener" where
  "bind_ok ln bindIface port = Inr ln"

definition bind_refused :: "string \<Rightarrow> string \<Rightarrow> 16 word \<Rightarrow> error + listener" where
  "bind_refused msg bindIface port = Inl (TransportError msg)"

text \<open>The actions of one thread, in the order of the trace.\<close>

definition actions_of :: "actor \<Rightarrow> (actor \<times> action) list \<Rightarrow> action list" where
  "actions_of who tr = map snd (filter (\<lambda>e. fst e = who) tr)"

section \<open>Invariants of the executions\<close>

text \<open>
  The statements of the goroutine body are numbered by \<open>stage\<close>; the actions a
  supervising goroutine performs over its whole life are, in program order, the receive,
  the log line, the close, the removal and the publication of the "stopped" event.
\<close>

fun stage :: "pc \<Rightarrow> nat" where
  "stage AwaitStop = 0"
| "stage LogStop = 1"
| "stage CloseListener = 2"
| "stage Deregister = 3"
| "stage Announce = 4"
| "stage Finished = 5"

definition stop_event :: "task \<Rightarrow> Event" where
  "stop_event t = \<lparr>Job = tjob t, EventType = StoppedEvent\<rparr>"

definition supervisor_actions :: "task \<Rightarrow> action list" where
  "supervisor_actions t =
     [Received (JobCtrl (tjob t)), Logged (ID (tjob t)), Closed (tln t), Removed (tjob t),
      Published (stop_event t)]"

text \<open>The identifiers handed out by the allocator, in the order of the trace.\<close>

fun allocated :: "(actor \<times> action) list \<Rightarrow> int list" where
  "allocated [] = []"
| "allocated ((_, Allocated i) # tr) = i # allocated tr"
| "allocated (_ # tr) = allocated tr"

text \<open>
  The atomic transitions every call decomposes into: a caller's note in the trace (the
  bind attempt, a console message), a send on the stop channel of a registered job, the
  launch of a job after a successful bind, and one statement of a goroutine.
\<close>

inductive atomic :: "state \<Rightarrow> state \<Rightarrow> bool" where
  a_say:
    "\<lbrakk>a = Bound i p \<or> a = Printed m; trace s' = trace s @ [(Caller, a)];
      jobID s' = jobID s; Active s' = Active s; published s' = published s;
      nchans s' = nchans s; chans s' = chans s; closed s' = closed s; tasks s' = tasks s\<rbrakk>
     \<Longrightarrow> atomic s s'"
| a_send:
    "\<lbrakk>Active s i = Some j; trace s' = trace s @ [(Caller, Sent (JobCtrl j) True)];
      chans s' = (chans s)(JobCtrl j := chans s (JobCtrl j) @ [True]);
      jobID s' = jobID s; Active s' = Active s; published s' = published s;
      nchans s' = nchans s; closed s' = closed s; tasks s' = tasks s\<rbrakk>
     \<Longrightarrow> atomic s s'"
| a_launch:
    "\<lbrakk>Active s (jobID s + 1) = None;
      job = \<lparr>ID = jobID s + 1, Name = ''rpc'', Description = ''client listener'',
              Protocol = ''tcp'', Port = p, JobCtrl = nchans s\<rparr>;
      jobID s' = jobID s + 1; Active s' = (Active s)(jobID s + 1 \<mapsto> job);
      nchans s' = Suc (nchans s); chans s' = (chans s)(nchans s := []);
      tasks s' = tasks s @ [\<lparr>tjob = job, tln = ln, tpc = AwaitStop\<rparr>];
      trace s' = trace s @ [(Caller, Allocated (jobID s + 1)), (Caller, ChanMade (nchans s)),
         (Caller, Spawned (length (tasks s))), (Caller, Registered job)];
      published s' = published s; closed s' = closed s\<rbrakk>
     \<Longrightarrow> atomic s s'"
| a_task:
    "\<lbrakk>k < length (tasks s); t = tasks s ! k; tpc t \<noteq> Finished;
      tpc t = AwaitStop \<longrightarrow> chans s (JobCtrl (tjob t)) \<noteq> [];
      stage p = Suc (stage (tpc t));
      tasks s' = (tasks s)[k := t\<lparr>tpc := p\<rparr>];
      trace s' = trace s @ [(Task k, supervisor_actions t ! stage (tpc t))];
      jobID s' = jobID s; nchans s' = nchans s;
      chans s' = (if tpc t = AwaitStop
                  then (chans s)(JobCtrl (tjob t) := tl (chans s (JobCtrl (tjob t))))
                  else chans s);
      closed s' = (if tpc t = CloseListener then closed s @ [tln t] else closed s);
      Active s' = (if tpc t = Deregister then (Active s)(ID (tjob t) := None) else Active s);
      published s' = (if tpc t = Announce then published s @ [stop_event t] else published s)\<rbrakk>
     \<Longrightarrow> atomic s s'"

text \<open>
  The registry invariant: every entry is stored under the identifier of its job, the
  identifiers in use lie between 1 and the counter, and every stop channel is allocated.
\<close>

definition ids_ok :: "state \<Rightarrow> bool" where
  "ids_ok s \<longleftrightarrow> 0 \<le> jobID s \<and>
     (\<forall>i j. Active s i = Some j \<longrightarrow> ID j = i \<and> 1 \<le> i \<and> i \<le> jobID s \<and> JobCtrl j < nchans s)"

text \<open>
  The trace invariant: what goroutine \<open>k\<close> has done so far is the prefix of its actions
  that its program counter has passed; a goroutine that does not exist has done nothing.
\<close>

definition tasks_ok :: "state \<Rightarrow> bool" where
  "tasks_ok s \<longleftrightarrow>
     (\<forall>k. actions_of (Task k) (trace s) =
        (if k < length (tasks s)
         then take (stage (tpc (tasks s ! k))) (supervisor_actions (tasks s ! k))
         else []))"

text \<open>The allocator invariant: the identifiers handed out so far are \<open>1, 2, ..., jobID\<close>.\<close>

definition alloc_ok :: "state \<Rightarrow> bool" where
  "alloc_ok s \<longleftrightarrow> allocated (trace s) = [1..jobID s]"

text \<open>
  The supervision invariant: every registered job is the job of a goroutine that has not
  yet removed it, goroutines supervise jobs with pairwise different identifiers, and the
  job of a goroutine that has not passed the removal is registered.
\<close>

definition sup_ok :: "state \<Rightarrow> bool" where
  "sup_ok s \<longleftrightarrow>
     (\<forall>i j. Active s i = Some j \<longrightarrow>
        (\<exists>k<length (tasks s). tjob (tasks s ! k) = j \<and> stage (tpc (tasks s ! k)) \<le> 3)) \<and>
     (\<forall>k<length (tasks s). \<forall>k'<length (tasks s).
        ID (tjob (tasks s ! k)) = ID (tjob (tasks s ! k')) \<longrightarrow> k = k') \<and>
     (\<forall>k<length (tasks s).
        1 \<le> ID (tjob (tasks s ! k)) \<and> ID (tjob (tasks s ! k)) \<le> jobID s \<and>
        JobCtrl (tjob (tasks s ! k)) < nchans s \<and>
        (stage (tpc (tasks s ! k)) \<le> 3 \<longrightarrow>
           Active s (ID (tjob (tasks s ! k))) = Some (tjob (tasks s ! k))))"

text \<open>
  The event invariant: the events handed to the broker are, as a multiset, the "stopped"
  events of the goroutines that have finished.
\<close>

definition ev_ok :: "state \<Rightarrow> bool" where
  "ev_ok s \<longleftrightarrow>
     mset (published s) = mset (map stop_event (filter (\<lambda>t. tpc t = Finished) (tasks s)))"

text \<open>The number of sends on channel \<open>c\<close> in a trace.\<close>

fun sends_on :: "chan \<Rightarrow> (actor \<times> action) list \<Rightarrow> nat" where
  "sends_on c [] = 0"
| "sends_on c ((_, Sent c' v) # tr) = (if c' = c then 1 else 0) + sends_on c tr"
| "sends_on c (_ # tr) = sends_on c tr"

text \<open>
  The channel invariant: goroutine \<open>k\<close> holds channel \<open>k\<close>; the sends on this channel so
  far are the values still offered on it, and one more once the goroutine has passed its
  receive; on a channel that no goroutine holds nothing has been sent.
\<close>

definition chan_ok :: "state \<Rightarrow> bool" where
  "chan_ok s \<longleftrightarrow>
     nchans s = length (tasks s) \<and>
     (\<forall>k<length (tasks s).
        JobCtrl (tjob (tasks s ! k)) = k \<and>
        sends_on k (trace s) =
          length (chans s k) + (if tpc (tasks s ! k) = AwaitStop then 0 else 1)) \<and>
     (\<forall>c. length (tasks s) \<le> c \<longrightarrow> sends_on c (trace s) = 0)"

definition good :: "state \<Rightarrow> bool" where
  "good s \<longleftrightarrow> ids_ok s \<and> tasks_ok s \<and> alloc_ok s \<and> sup_ok s \<and> ev_ok s \<and> chan_ok s"

text \<open>
  In a list, \<open>a\<close> precedes \<open>b\<close> when \<open>b\<close> occurs after the first occurrence of \<open>a\<close>.
\<close>

definition precedes :: "'a \<Rightarrow> 'a \<Rightarrow> 'a list \<Rightarrow> bool" where
  "precedes a b xs \<longleftrightarrow> b \<in> set (drop 1 (dropWhile (\<lambda>x. x \<noteq> a) xs))"

section \<open>Auxiliary facts\<close>

subsection \<open>The listener and the goroutine, step by step\<close>

lemmas prim_defs = emit_def GetJobID_def make_chan_def send_def go_def AddJob_def
  RemoveJob_def Publish_def Close_def

lemma start_failure:
  "T i p = Inl err \<Longrightarrow>
   jobStartClientListener T i p s = Some ((- 1, Some err), emit Caller (Bound i p) s)"
  by (simp add: jobStartClientListener_def)

lemma start_success:
  assumes "T i p = Inr ln" and "Active s (jobID s + 1) = None"
  shows "jobStartClientListener T i p s =
     Some ((jobID s + 1, None),
       s\<lparr>jobID := jobID s + 1,
         Active := (Active s)(jobID s + 1 \<mapsto>
            \<lparr>ID = jobID s + 1, Name = ''rpc'', Description = ''client listener'',
             Protocol = ''tcp'', Port = p, JobCtrl = nchans s\<rparr>),
         nchans := Suc (nchans s),
         chans := (chans s)(nchans s := []),
         tasks := tasks s @ [\<lparr>tjob = \<lparr>ID = jobID s + 1, Name = ''rpc'', Description = ''client listener'',
             Protocol = ''tcp'', Port = p, JobCtrl = nchans s\<rparr>, tln = ln, tpc = AwaitStop\<rparr>],
         trace := trace s @ [(Caller, Bound i p), (Caller, Allocated (jobID s + 1)),
            (Caller, ChanMade (nchans s)), (Caller, Spawned (length (tasks s))),
            (Caller, Registered \<lparr>ID = jobID s + 1, Name = ''rpc'', Description = ''client listener'',
             Protocol = ''tcp'', Port = p, JobCtrl = nchans s\<rparr>)]\<rparr>)"
  using assms by (simp add: jobStartClientListener_def prim_defs Let_def)

lemma start_fatal:
  assumes "T i p = Inr ln" and "Active s (jobID s + 1) = Some j"
  shows "jobStartClientListener T i p s = None"
  using assms by (simp add: jobStartClientListener_def prim_defs Let_def)

lemma task_step_cases:
  assumes "k < length (tasks s)"
  shows "tpc (tasks s ! k) = AwaitStop \<Longrightarrow> chans s (JobCtrl (tjob (tasks s ! k))) = [] \<Longrightarrow>
           task_step k s = s"
    and "tpc (tasks s ! k) = AwaitStop \<Longrightarrow> chans s (JobCtrl (tjob (tasks s ! k))) = v # vs \<Longrightarrow>
           task_step k s =
             s\<lparr>chans := (chans s)(JobCtrl (tjob (tasks s ! k)) := vs),
               trace := trace s @ [(Task k, Received (JobCtrl (tjob (tasks s ! k))))],
               tasks := (tasks s)[k := (tasks s ! k)\<lparr>tpc := LogStop\<rparr>]\<rparr>"
    and "tpc (tasks s ! k) = LogStop \<Longrightarrow>
           task_step k s =
             s\<lparr>trace := trace s @ [(Task k, Logged (ID (tjob (tasks s ! k))))],
               tasks := (tasks s)[k := (tasks s ! k)\<lparr>tpc := CloseListener\<rparr>]\<rparr>"
    and "tpc (tasks s ! k) = CloseListener \<Longrightarrow>
           task_step k s =
             s\<lparr>closed := closed s @ [tln (tasks s ! k)],
               trace := trace s @ [(Task k, Closed (tln (tasks s ! k)))],
               tasks := (tasks s)[k := (tasks s ! k)\<lparr>tpc := Deregister\<rparr>]\<rparr>"
    and "tpc (tasks s ! k) = Deregister \<Longrightarrow>
           task_step k s =
             s\<lparr>Active := (Active s)(ID (tjob (tasks s ! k)) := None),
               trace := trace s @ [(Task k, Removed (tjob (tasks s ! k)))],
               tasks := (tasks s)[k := (tasks s ! k)\<lparr>tpc := Announce\<rparr>]\<rparr>"
    and "tpc (tasks s ! k) = Announce \<Longrightarrow>
           task_step k s =
             s\<lparr>published := published s @ [\<lparr>Job = tjob (tasks s ! k), EventType = StoppedEvent\<rparr>],
               trace := trace s @ [(Task k, Published \<lparr>Job = tjob (tasks s ! k), EventType = StoppedEvent\<rparr>)],
               tasks := (tasks s)[k := (tasks s ! k)\<lparr>tpc := Finished\<rparr>]\<rparr>"
    and "tpc (tasks s ! k) = Finished \<Longrightarrow> task_step k s = s"
  using assms by (simp_all add: task_step_def prim_defs Let_def)

lemma task_step_idle: "length (tasks s) \<le> k \<Longrightarrow> task_step k s = s"
  by (simp add: task_step_def)

subsection \<open>The registry invariant\<close>

lemma ids_okD:
  "ids_ok s \<Longrightarrow> Active s i = Some j \<Longrightarrow> ID j = i \<and> 1 \<le> i \<and> i \<le> jobID s \<and> JobCtrl j < nchans s"
  unfolding ids_ok_def by blast

lemma ids_okI:
  "0 \<le> jobID s \<Longrightarrow>
   (\<And>i j. Active s i = Some j \<Longrightarrow> ID j = i \<and> 1 \<le> i \<and> i \<le> jobID s \<and> JobCtrl j < nchans s) \<Longrightarrow>
   ids_ok s"
  unfolding ids_ok_def by blast

lemma ids_ok_counter: "ids_ok s \<Longrightarrow> 0 \<le> jobID s"
  unfolding ids_ok_def by blast

lemma ids_ok_init: "ids_ok init"
  by (simp add: ids_ok_def init_def)

lemma ids_ok_fresh: "ids_ok s \<Longrightarrow> Active s (jobID s + 1) = None"
proof (cases "Active s (jobID s + 1)")
  case (Some j)
  assume "ids_ok s"
  with Some have "jobID s + 1 \<le> jobID s" unfolding ids_ok_def by blast
  then show ?thesis by simp
qed simp

lemma ids_ok_atomic:
  assumes "atomic s s'" and "ids_ok s"
  shows "ids_ok s'"
  using assms
proof (induction rule: atomic.induct)
  case (a_launch s job p s' ln)
  show ?case
  proof (rule ids_okI)
    show "0 \<le> jobID s'" using ids_ok_counter [OF a_launch.prems] a_launch.hyps by simp
  next
    fix i j assume "Active s' i = Some j"
    then show "ID j = i \<and> 1 \<le> i \<and> i \<le> jobID s' \<and> JobCtrl j < nchans s'"
      using ids_okD [OF a_launch.prems, of i j] ids_ok_counter [OF a_launch.prems] a_launch.hyps
      by (auto split: if_splits)
  qed
next
  case (a_task k s t p s')
  show ?case
  proof (rule ids_okI)
    show "0 \<le> jobID s'" using ids_ok_counter [OF a_task.prems] a_task.hyps by simp
  next
    fix i j assume "Active s' i = Some j"
    then show "ID j = i \<and> 1 \<le> i \<and> i \<le> jobID s' \<and> JobCtrl j < nchans s'"
      using ids_okD [OF a_task.prems, of i j] a_task.hyps
      by (auto split: if_splits)
  qed
qed (auto intro!: ids_okI dest: ids_okD ids_ok_counter)

subsection \<open>Calls decompose into atomic transitions\<close>

lemma supervisor_actions_pc [simp]: "supervisor_actions (t\<lparr>tpc := p\<rparr>) = supervisor_actions t"
  by (simp add: supervisor_actions_def stop_event_def)

lemma length_supervisor_actions [simp]: "length (supervisor_actions t) = 5"
  by (simp add: supervisor_actions_def)

lemma stop_event_pc [simp]: "stop_event (t\<lparr>tpc := p\<rparr>) = stop_event t"
  by (simp add: stop_event_def)

lemma task_step_atomic: "task_step k s = s \<or> atomic s (task_step k s)"
proof (cases "k < length (tasks s)")
  case False
  then show ?thesis by (simp add: task_step_idle)
next
  case True
  show ?thesis
  proof (cases "tpc (tasks s ! k)")
    case AwaitStop
    show ?thesis
    proof (cases "chans s (JobCtrl (tjob (tasks s ! k)))")
      case Nil
      with True AwaitStop show ?thesis by (simp add: task_step_cases)
    next
      case (Cons v vs)
      have "atomic s (task_step k s)"
        by (rule a_task [where k = k and p = LogStop, OF True refl])
           (simp_all add: task_step_cases(2) [OF True AwaitStop Cons] AwaitStop Cons
              supervisor_actions_def)
      then show ?thesis ..
    qed
  next
    case LogStop
    have "atomic s (task_step k s)"
      by (rule a_task [where k = k and p = CloseListener, OF True refl])
         (simp_all add: task_step_cases(3) [OF True LogStop] LogStop supervisor_actions_def)
    then show ?thesis ..
  next
    case CloseListener
    have "atomic s (task_step k s)"
      by (rule a_task [where k = k and p = Deregister, OF True refl])
         (simp_all add: task_step_cases(4) [OF True CloseListener] CloseListener supervisor_actions_def)
    then show ?thesis ..
  next
    case Deregister
    have "atomic s (task_step k s)"
      by (rule a_task [where k = k and p = Announce, OF True refl])
         (simp_all add: task_step_cases(5) [OF True Deregister] Deregister supervisor_actions_def)
    then show ?thesis ..
  next
    case Announce
    have "atomic s (task_step k s)"
      by (rule a_task [where k = k and p = Finished, OF True refl])
         (simp_all add: task_step_cases(6) [OF True Announce] Announce supervisor_actions_def stop_event_def)
    then show ?thesis ..
  next
    case Finished
    with True show ?thesis by (simp add: task_step_cases)
  qed
qed

lemma emit_atomic: "a = Bound i p \<or> a = Printed m \<Longrightarrow> atomic s (emit Caller a s)"
  by (rule a_say [where a = a and i = i and p = p and m = m]) (simp_all add: emit_def)

lemma stop_atomic: "snd (StopJob i s) = s \<or> atomic s (snd (StopJob i s))"
proof (cases "Active s i")
  case None
  then show ?thesis by (simp add: StopJob_def)
next
  case (Some j)
  have "atomic s (snd (StopJob i s))"
    by (rule a_send [OF Some]) (simp_all add: StopJob_def Some send_def emit_def)
  then show ?thesis ..
qed

lemma start_atomic:
  assumes "ids_ok s" and "jobStartClientListener T i p s = Some (r, s')"
  shows "atomic\<^sup>*\<^sup>* s s'"
proof -
  have b: "atomic s (emit Caller (Bound i p) s)"
    by (rule emit_atomic [where i = i and p = p]) simp
  show ?thesis
  proof (cases "T i p")
    case (Inl e)
    with assms(2) have "s' = emit Caller (Bound i p) s" by (simp add: start_failure)
    with b show ?thesis by blast
  next
    case (Inr ln)
    have fresh: "Active s (jobID s + 1) = None" using assms(1) by (rule ids_ok_fresh)
    have "atomic (emit Caller (Bound i p) s) s'"
      by (rule a_launch [where p = p and ln = ln, OF _ refl])
         (use start_success [of T i p ln s, OF Inr fresh] assms(2) fresh in \<open>auto simp: emit_def\<close>)
    with b show ?thesis by (meson rtranclp.rtrancl_into_rtrancl rtranclp.rtrancl_refl)
  qed
qed

lemma cmd_atomic:
  assumes "ids_ok s" and "startMultiplayerModeCmd T ctx s = Some s'"
  shows "atomic\<^sup>*\<^sup>* s s'"
proof -
  from assms(2) obtain r s1 m where
    st: "jobStartClientListener T (FlagsString ctx ''server'') (ucast (FlagsInt ctx ''lport'')) s = Some (r, s1)"
    and s': "s' = emit Caller (Printed m) s1"
    by (auto simp: startMultiplayerModeCmd_def Let_def split: option.splits prod.splits)
  have "atomic s1 s'" unfolding s' by (rule emit_atomic [where m = m]) simp
  with start_atomic [OF assms(1) st] show ?thesis
    by (rule rtranclp.rtrancl_into_rtrancl)
qed

lemma exec_atomic:
  assumes "ids_ok s" and "exec c s = Some s'"
  shows "atomic\<^sup>*\<^sup>* s s'"
proof (cases c)
  case (StartListener i p r)
  with assms show ?thesis by (auto intro: start_atomic)
next
  case (StartCmd ctx r)
  with assms show ?thesis by (auto intro: cmd_atomic)
next
  case (Stop i)
  with assms stop_atomic [of i s] show ?thesis by auto
next
  case (Sched k)
  with assms task_step_atomic [of k s] show ?thesis by auto
qed

subsection \<open>The trace invariant\<close>

lemma actions_of_snoc:
  "actions_of w (tr @ [(w', a)]) = (if w' = w then actions_of w tr @ [a] else actions_of w tr)"
  by (simp add: actions_of_def)

lemma actions_of_append: "actions_of w (tr @ tr') = actions_of w tr @ actions_of w tr'"
  by (simp add: actions_of_def)

lemma actions_of_Cons:
  "actions_of w ((w', a) # tr) = (if w' = w then a # actions_of w tr else actions_of w tr)"
  by (simp add: actions_of_def)

lemma actions_of_Nil: "actions_of w [] = []"
  by (simp add: actions_of_def)

lemma tasks_okD:
  "tasks_ok s \<Longrightarrow> actions_of (Task k) (trace s) =
        (if k < length (tasks s)
         then take (stage (tpc (tasks s ! k))) (supervisor_actions (tasks s ! k))
         else [])"
  unfolding tasks_ok_def by blast

lemma stage_le: "stage p \<le> 5"
  by (cases p) simp_all

lemma stage_lt: "p \<noteq> Finished \<Longrightarrow> stage p < 5"
  by (cases p) simp_all

lemma tasks_ok_atomic:
  assumes "atomic s s'" and "tasks_ok s"
  shows "tasks_ok s'"
  using assms
proof (induction rule: atomic.induct)
  case (a_say a i p m s' s)
  then show ?case by (auto simp: tasks_ok_def actions_of_snoc)
next
  case (a_send s i j s')
  then show ?case by (auto simp: tasks_ok_def actions_of_snoc)
next
  case (a_launch s job p s' ln)
  show ?case
    unfolding tasks_ok_def
  proof
    fix k
    show "actions_of (Task k) (trace s') =
        (if k < length (tasks s')
         then take (stage (tpc (tasks s' ! k))) (supervisor_actions (tasks s' ! k))
         else [])"
      using tasks_okD [OF a_launch.prems, of k] a_launch.hyps
      by (auto simp: actions_of_append actions_of_Cons actions_of_Nil nth_append)
  qed
next
  case (a_task k s t p s')
  show ?case
    unfolding tasks_ok_def
  proof
    fix k'
    show "actions_of (Task k') (trace s') =
        (if k' < length (tasks s')
         then take (stage (tpc (tasks s' ! k'))) (supervisor_actions (tasks s' ! k'))
         else [])"
    proof (cases "k' = k")
      case True
      have "stage (tpc t) < length (supervisor_actions t)"
        using stage_lt [OF a_task.hyps(3)] by simp
      then have "take (Suc (stage (tpc t))) (supervisor_actions t) =
          take (stage (tpc t)) (supervisor_actions t) @ [supervisor_actions t ! stage (tpc t)]"
        by (rule take_Suc_conv_app_nth)
      then show ?thesis
        using tasks_okD [OF a_task.prems, of k] a_task.hyps True
        by (simp add: actions_of_snoc)
    next
      case False
      then show ?thesis
        using tasks_okD [OF a_task.prems, of k'] a_task.hyps
        by (simp add: actions_of_snoc)
    qed
  qed
qed

lemma tasks_ok_init: "tasks_ok init"
  by (simp add: tasks_ok_def init_def actions_of_def)

subsection \<open>The allocator invariant\<close>

lemma allocated_append: "allocated (tr @ tr') = allocated tr @ allocated tr'"
  by (induction tr rule: allocated.induct) simp_all

lemma alloc_ok_atomic:
  assumes "atomic s s'" and "ids_ok s" and "alloc_ok s"
  shows "alloc_ok s'"
  using assms
proof (induction rule: atomic.induct)
  case (a_launch s job p s' ln)
  have "0 \<le> jobID s" using a_launch.prems(1) by (rule ids_ok_counter)
  then have "[1..jobID s + 1] = [1..jobID s] @ [jobID s + 1]"
    by (simp add: upto_rec2)
  with a_launch show ?case by (simp add: alloc_ok_def allocated_append)
next
  case (a_task k s t p s')
  have "stage (tpc t) < 5" using stage_lt [OF a_task.hyps(3)] .
  then have "allocated [(Task k, supervisor_actions t ! stage (tpc t))] = []"
    by (cases "tpc t") (simp_all add: supervisor_actions_def)
  with a_task show ?case by (simp add: alloc_ok_def allocated_append)
qed (auto simp: alloc_ok_def allocated_append)

lemma alloc_ok_init: "alloc_ok init"
  by (simp add: alloc_ok_def init_def)

subsection \<open>The supervision invariant\<close>

lemma sup_ok_registered:
  "sup_ok s \<Longrightarrow> Active s i = Some j \<Longrightarrow>
   \<exists>k<length (tasks s). tjob (tasks s ! k) = j \<and> stage (tpc (tasks s ! k)) \<le> 3"
  unfolding sup_ok_def by blast

lemma sup_ok_unique:
  "sup_ok s \<Longrightarrow> k < length (tasks s) \<Longrightarrow> k' < length (tasks s) \<Longrightarrow>
   ID (tjob (tasks s ! k)) = ID (tjob (tasks s ! k')) \<Longrightarrow> k = k'"
  unfolding sup_ok_def by blast

lemma sup_ok_task:
  "sup_ok s \<Longrightarrow> k < length (tasks s) \<Longrightarrow>
   1 \<le> ID (tjob (tasks s ! k)) \<and> ID (tjob (tasks s ! k)) \<le> jobID s \<and>
   JobCtrl (tjob (tasks s ! k)) < nchans s \<and>
   (stage (tpc (tasks s ! k)) \<le> 3 \<longrightarrow>
      Active s (ID (tjob (tasks s ! k))) = Some (tjob (tasks s ! k)))"
  unfolding sup_ok_def by blast

lemma sup_okI:
  assumes "\<And>i j. Active s i = Some j \<Longrightarrow>
        \<exists>k<length (tasks s). tjob (tasks s ! k) = j \<and> stage (tpc (tasks s ! k)) \<le> 3"
    and "\<And>k k'. k < length (tasks s) \<Longrightarrow> k' < length (tasks s) \<Longrightarrow>
        ID (tjob (tasks s ! k)) = ID (tjob (tasks s ! k')) \<Longrightarrow> k = k'"
    and "\<And>k. k < length (tasks s) \<Longrightarrow>
        1 \<le> ID (tjob (tasks s ! k)) \<and> ID (tjob (tasks s ! k)) \<le> jobID s \<and>
        JobCtrl (tjob (tasks s ! k)) < nchans s \<and>
        (stage (tpc (tasks s ! k)) \<le> 3 \<longrightarrow>
           Active s (ID (tjob (tasks s ! k))) = Some (tjob (tasks s ! k)))"
  shows "sup_ok s"
  unfolding sup_ok_def using assms by blast

lemma sup_ok_same:
  assumes "sup_ok s" and "Active s' = Active s" and "tasks s' = tasks s"
    and "jobID s' = jobID s" and "nchans s' = nchans s"
  shows "sup_ok s'"
  using assms unfolding sup_ok_def by simp

lemma sup_ok_launch:
  assumes ok: "sup_ok s" and ids: "ids_ok s"
    and job: "job = \<lparr>ID = jobID s + 1, Name = ''rpc'', Description = ''client listener'',
              Protocol = ''tcp'', Port = p, JobCtrl = nchans s\<rparr>"
    and s': "jobID s' = jobID s + 1" "Active s' = (Active s)(jobID s + 1 \<mapsto> job)"
      "nchans s' = Suc (nchans s)"
      "tasks s' = tasks s @ [\<lparr>tjob = job, tln = ln, tpc = AwaitStop\<rparr>]"
  shows "sup_ok s'"
proof (rule sup_okI)
  fix i j assume a: "Active s' i = Some j"
  show "\<exists>k<length (tasks s'). tjob (tasks s' ! k) = j \<and> stage (tpc (tasks s' ! k)) \<le> 3"
  proof (cases "i = jobID s + 1")
    case True
    with a s' have "j = job" by simp
    then have "length (tasks s) < length (tasks s') \<and> tjob (tasks s' ! length (tasks s)) = j
        \<and> stage (tpc (tasks s' ! length (tasks s))) \<le> 3"
      using s' by simp
    then show ?thesis by blast
  next
    case False
    with a s' have "Active s i = Some j" by simp
    from sup_ok_registered [OF ok this] obtain k where
      "k < length (tasks s)" "tjob (tasks s ! k) = j" "stage (tpc (tasks s ! k)) \<le> 3"
      by blast
    then have "k < length (tasks s') \<and> tjob (tasks s' ! k) = j \<and> stage (tpc (tasks s' ! k)) \<le> 3"
      using s' by (simp add: nth_append)
    then show ?thesis by blast
  qed
next
  fix k k' assume "k < length (tasks s')" "k' < length (tasks s')"
    "ID (tjob (tasks s' ! k)) = ID (tjob (tasks s' ! k'))"
  then show "k = k'"
    using s' job sup_ok_unique [OF ok, of k k'] sup_ok_task [OF ok, of k] sup_ok_task [OF ok, of k']
    by (auto simp: nth_append less_Suc_eq split: if_splits)
next
  fix k assume "k < length (tasks s')"
  then show "1 \<le> ID (tjob (tasks s' ! k)) \<and> ID (tjob (tasks s' ! k)) \<le> jobID s' \<and>
        JobCtrl (tjob (tasks s' ! k)) < nchans s' \<and>
        (stage (tpc (tasks s' ! k)) \<le> 3 \<longrightarrow>
           Active s' (ID (tjob (tasks s' ! k))) = Some (tjob (tasks s' ! k)))"
    using s' job sup_ok_task [OF ok, of k] ids_ok_counter [OF ids]
    by (auto simp: nth_append less_Suc_eq split: if_splits)
qed

lemma tjob_update:
  "k1 < length ts \<Longrightarrow> tjob (ts[k := (ts ! k)\<lparr>tpc := p\<rparr>] ! k1) = tjob (ts ! k1)"
  by (cases "k1 = k") simp_all

lemma tln_update:
  "k1 < length ts \<Longrightarrow> tln (ts[k := (ts ! k)\<lparr>tpc := p\<rparr>] ! k1) = tln (ts ! k1)"
  by (cases "k1 = k") simp_all

lemma sup_ok_step:
  assumes ok: "sup_ok s" and ids: "ids_ok s"
    and k: "k < length (tasks s)" and t: "t = tasks s ! k" and nf: "tpc t \<noteq> Finished"
    and p: "stage p = Suc (stage (tpc t))"
    and s': "tasks s' = (tasks s)[k := t\<lparr>tpc := p\<rparr>]" "jobID s' = jobID s" "nchans s' = nchans s"
      "Active s' = (if tpc t = Deregister then (Active s)(ID (tjob t) := None) else Active s)"
  shows "sup_ok s'"
proof (rule sup_okI)
  fix i j assume a: "Active s' i = Some j"
  then have old: "Active s i = Some j" and ne: "tpc t = Deregister \<Longrightarrow> i \<noteq> ID (tjob t)"
    using s' by (auto split: if_splits)
  from sup_ok_registered [OF ok old] obtain k0 where
    k0: "k0 < length (tasks s)" "tjob (tasks s ! k0) = j" "stage (tpc (tasks s ! k0)) \<le> 3"
    by blast
  have idj: "ID j = i" using ids_okD [OF ids old] by simp
  have "tjob (tasks s' ! k0) = j \<and> stage (tpc (tasks s' ! k0)) \<le> 3"
  proof (cases "k0 = k")
    case True
    with k0 t idj ne have "tpc t \<noteq> Deregister" by auto
    with k0 True t p have "stage p \<le> 3" by (cases "tpc t") simp_all
    with True k0 t s' k show ?thesis by simp
  next
    case False
    with k0 s' show ?thesis by simp
  qed
  with k0 s' show "\<exists>k<length (tasks s'). tjob (tasks s' ! k) = j \<and> stage (tpc (tasks s' ! k)) \<le> 3"
    by auto
next
  fix k1 k2 assume "k1 < length (tasks s')" "k2 < length (tasks s')"
    "ID (tjob (tasks s' ! k1)) = ID (tjob (tasks s' ! k2))"
  then show "k1 = k2"
    using s' t sup_ok_unique [OF ok, of k1 k2]
    by (simp add: tjob_update)
next
  fix k1 assume k1: "k1 < length (tasks s')"
  show "1 \<le> ID (tjob (tasks s' ! k1)) \<and> ID (tjob (tasks s' ! k1)) \<le> jobID s' \<and>
        JobCtrl (tjob (tasks s' ! k1)) < nchans s' \<and>
        (stage (tpc (tasks s' ! k1)) \<le> 3 \<longrightarrow>
           Active s' (ID (tjob (tasks s' ! k1))) = Some (tjob (tasks s' ! k1)))"
  proof (cases "k1 = k")
    case True
    have "stage p \<le> 3 \<Longrightarrow> stage (tpc t) \<le> 3 \<and> tpc t \<noteq> Deregister"
      using p by (cases "tpc t") simp_all
    then show ?thesis
      using True k s' t sup_ok_task [OF ok k] by auto
  next
    case False
    have "ID (tjob (tasks s ! k1)) \<noteq> ID (tjob t)"
      using False k1 k t s' sup_ok_unique [OF ok, of k1 k] by auto
    then show ?thesis
      using False k1 s' sup_ok_task [OF ok, of k1] by auto
  qed
qed

lemma sup_ok_atomic:
  assumes "atomic s s'" and "ids_ok s" and "sup_ok s"
  shows "sup_ok s'"
  using assms
proof (induction rule: atomic.induct)
  case (a_say a i p m s' s)
  then show ?case by (auto intro: sup_ok_same)
next
  case (a_send s i j s')
  then show ?case by (auto intro: sup_ok_same)
next
  case (a_launch s job p s' ln)
  from a_launch.prems(2) a_launch.prems(1) a_launch.hyps(2-5) a_launch.hyps(7)
  show ?case by (rule sup_ok_launch)
next
  case (a_task k s t p s')
  from a_task.prems(2) a_task.prems(1) a_task.hyps(1-3) a_task.hyps(5,6) a_task.hyps(8,9)
    a_task.hyps(12)
  show ?case by (rule sup_ok_step)
qed

lemma sup_ok_init: "sup_ok init"
  by (simp add: sup_ok_def init_def)

subsection \<open>The event invariant\<close>

lemma stage_Finished: "stage p = Suc (stage q) \<Longrightarrow> p = Finished \<longleftrightarrow> q = Announce"
  by (cases p; cases q) simp_all

lemma finished_update:
  assumes "k < length ts" and "tpc (ts ! k) \<noteq> Finished"
  shows "mset (map stop_event (filter (\<lambda>t. tpc t = Finished) (ts[k := (ts ! k)\<lparr>tpc := p\<rparr>]))) =
     (if p = Finished then add_mset (stop_event (ts ! k)) else id)
       (mset (map stop_event (filter (\<lambda>t. tpc t = Finished) ts)))"
proof -
  let ?P = "\<lambda>t. tpc t = Finished"
  have "mset (filter ?P (ts[k := (ts ! k)\<lparr>tpc := p\<rparr>])) =
      filter_mset ?P (mset (ts[k := (ts ! k)\<lparr>tpc := p\<rparr>]))"
    by simp
  also have "\<dots> = filter_mset ?P (add_mset ((ts ! k)\<lparr>tpc := p\<rparr>) (mset ts - {#ts ! k#}))"
    using assms(1) by (simp only: mset_update)
  also have "\<dots> = (if p = Finished then add_mset ((ts ! k)\<lparr>tpc := p\<rparr>) else id)
      (filter_mset ?P (mset ts))"
    using assms(2) by (simp add: filter_diff_mset)
  finally have "mset (filter ?P (ts[k := (ts ! k)\<lparr>tpc := p\<rparr>])) =
      (if p = Finished then add_mset ((ts ! k)\<lparr>tpc := p\<rparr>) else id) (mset (filter ?P ts))"
    by simp
  then have "image_mset stop_event (mset (filter ?P (ts[k := (ts ! k)\<lparr>tpc := p\<rparr>]))) =
      image_mset stop_event
        ((if p = Finished then add_mset ((ts ! k)\<lparr>tpc := p\<rparr>) else id) (mset (filter ?P ts)))"
    by simp
  then show ?thesis by (simp split: if_splits)
qed

lemma ev_ok_atomic:
  assumes "atomic s s'" and "ev_ok s"
  shows "ev_ok s'"
  using assms
proof (induction rule: atomic.induct)
  case (a_task k s t p s')
  have "tpc (tasks s ! k) \<noteq> Finished" using a_task.hyps by simp
  from finished_update [OF a_task.hyps(1) this, of p] a_task.hyps a_task.prems
    stage_Finished [OF a_task.hyps(5)]
  show ?case by (auto simp: ev_ok_def)
qed (auto simp: ev_ok_def)

lemma ev_ok_init: "ev_ok init"
  by (simp add: ev_ok_def init_def)

subsection \<open>The channel invariant\<close>

lemma sends_on_append: "sends_on c (tr @ tr') = sends_on c tr + sends_on c tr'"
  by (induction c tr rule: sends_on.induct) simp_all

lemma chan_ok_count: "chan_ok s \<Longrightarrow> nchans s = length (tasks s)"
  unfolding chan_ok_def by blast

lemma chan_ok_task:
  "chan_ok s \<Longrightarrow> k < length (tasks s) \<Longrightarrow>
   JobCtrl (tjob (tasks s ! k)) = k \<and>
   sends_on k (trace s) =
     length (chans s k) + (if tpc (tasks s ! k) = AwaitStop then 0 else 1)"
  unfolding chan_ok_def by blast

lemma chan_ok_unused: "chan_ok s \<Longrightarrow> length (tasks s) \<le> c \<Longrightarrow> sends_on c (trace s) = 0"
  unfolding chan_ok_def by blast

lemma chan_okI:
  assumes "nchans s = length (tasks s)"
    and "\<And>k. k < length (tasks s) \<Longrightarrow>
        JobCtrl (tjob (tasks s ! k)) = k \<and>
        sends_on k (trace s) =
          length (chans s k) + (if tpc (tasks s ! k) = AwaitStop then 0 else 1)"
    and "\<And>c. length (tasks s) \<le> c \<Longrightarrow> sends_on c (trace s) = 0"
  shows "chan_ok s"
  unfolding chan_ok_def using assms by blast

lemma sends_on_task_action:
  "n < 5 \<Longrightarrow> sends_on c [(who, supervisor_actions t ! n)] = 0"
  by (auto simp: supervisor_actions_def less_Suc_eq numeral_eq_Suc)

lemma stage_AwaitStop: "stage p = Suc n \<Longrightarrow> p \<noteq> AwaitStop"
  by (cases p) simp_all

lemma chan_ok_atomic:
  assumes "atomic s s'" and "ids_ok s" and "chan_ok s"
  shows "chan_ok s'"
  using assms
proof (induction rule: atomic.induct)
  case (a_say a i p m s' s)
  then show ?case
    by (auto intro!: chan_okI dest: chan_ok_count chan_ok_task chan_ok_unused
        simp: sends_on_append)
next
  case (a_send s i j s')
  have c: "JobCtrl j < length (tasks s)"
    using ids_okD [OF a_send.prems(1) a_send.hyps(1)] chan_ok_count [OF a_send.prems(2)] by simp
  show ?case
  proof (rule chan_okI)
    show "nchans s' = length (tasks s')"
      using a_send.hyps chan_ok_count [OF a_send.prems(2)] by simp
  next
    fix k assume "k < length (tasks s')"
    then show "JobCtrl (tjob (tasks s' ! k)) = k \<and>
        sends_on k (trace s') =
          length (chans s' k) + (if tpc (tasks s' ! k) = AwaitStop then 0 else 1)"
      using a_send.hyps chan_ok_task [OF a_send.prems(2), of k]
      by (simp add: sends_on_append)
  next
    fix c' assume "length (tasks s') \<le> c'"
    then show "sends_on c' (trace s') = 0"
      using a_send.hyps c chan_ok_unused [OF a_send.prems(2), of c']
      by (simp add: sends_on_append)
  qed
next
  case (a_launch s job p s' ln)
  note n = chan_ok_count [OF a_launch.prems(2)]
  show ?case
  proof (rule chan_okI)
    show "nchans s' = length (tasks s')" using a_launch.hyps n by simp
  next
    fix k assume k: "k < length (tasks s')"
    show "JobCtrl (tjob (tasks s' ! k)) = k \<and>
        sends_on k (trace s') =
          length (chans s' k) + (if tpc (tasks s' ! k) = AwaitStop then 0 else 1)"
    proof (cases "k < length (tasks s)")
      case True
      then show ?thesis
        using a_launch.hyps n chan_ok_task [OF a_launch.prems(2), of k]
        by (simp add: sends_on_append nth_append)
    next
      case False
      with k a_launch.hyps have "k = length (tasks s)" by simp
      then show ?thesis
        using a_launch.hyps n chan_ok_unused [OF a_launch.prems(2), of k]
        by (simp add: sends_on_append)
    qed
  next
    fix c assume "length (tasks s') \<le> c"
    then show "sends_on c (trace s') = 0"
      using a_launch.hyps chan_ok_unused [OF a_launch.prems(2), of c]
      by (simp add: sends_on_append)
  qed
next
  case (a_task k s t p s')
  have lt: "stage (tpc t) < 5" using stage_lt [OF a_task.hyps(3)] .
  have tr: "sends_on c (trace s') = sends_on c (trace s)" for c
    using a_task.hyps(7) sends_on_task_action [OF lt, of c "Task k" t]
    by (simp add: sends_on_append)
  note hyps = a_task.hyps(1-6) a_task.hyps(8-13)
  have pna: "p \<noteq> AwaitStop" using a_task.hyps(5) by (rule stage_AwaitStop)
  have ck: "JobCtrl (tjob t) = k"
    using chan_ok_task [OF a_task.prems(2) a_task.hyps(1)] a_task.hyps(2) by simp
  show ?case
  proof (rule chan_okI)
    show "nchans s' = length (tasks s')"
      using hyps chan_ok_count [OF a_task.prems(2)] by simp
  next
    fix k' assume k': "k' < length (tasks s')"
    show "JobCtrl (tjob (tasks s' ! k')) = k' \<and>
        sends_on k' (trace s') =
          length (chans s' k') + (if tpc (tasks s' ! k') = AwaitStop then 0 else 1)"
    proof (cases "k' = k")
      case True
      show ?thesis
      proof (cases "tpc t = AwaitStop")
        case aw: True
        then have "chans s k \<noteq> []" using a_task.hyps(4) ck by simp
        then have "length (chans s k) = Suc (length (tl (chans s k)))" by (cases "chans s k") simp_all
        then show ?thesis
          using True aw pna ck hyps chan_ok_task [OF a_task.prems(2) a_task.hyps(1)]
          by (simp add: tr)
      next
        case False
        then show ?thesis
          using True pna ck hyps chan_ok_task [OF a_task.prems(2) a_task.hyps(1)]
          by (simp add: tr)
      qed
    next
      case False
      then show ?thesis
        using k' ck hyps chan_ok_task [OF a_task.prems(2), of k']
        by (simp add: tr)
    qed
  next
    fix c assume "length (tasks s') \<le> c"
    then show "sends_on c (trace s') = 0"
      using hyps chan_ok_unused [OF a_task.prems(2), of c]
      by (simp add: tr)
  qed
qed

lemma chan_ok_init: "chan_ok init"
  by (simp add: chan_ok_def init_def)

subsection \<open>Every reachable state satisfies the invariants\<close>

lemma good_init: "good init"
  by (simp add: good_def ids_ok_init tasks_ok_init alloc_ok_init sup_ok_init ev_ok_init
      chan_ok_init)

lemma good_atomic: "atomic s s' \<Longrightarrow> good s \<Longrightarrow> good s'"
  by (simp add: good_def ids_ok_atomic tasks_ok_atomic alloc_ok_atomic sup_ok_atomic ev_ok_atomic
      chan_ok_atomic)

lemma good_atomics: "atomic\<^sup>*\<^sup>* s s' \<Longrightarrow> good s \<Longrightarrow> good s'"
  by (induction rule: rtranclp_induct) (auto intro: good_atomic)

lemma good_exec: "good s \<Longrightarrow> exec c s = Some s' \<Longrightarrow> good s'"
  using exec_atomic [of s c s'] good_atomics [of s s'] by (simp add: good_def)

lemma good_run: "good s \<Longrightarrow> run cs s = Some s' \<Longrightarrow> good s'"
  by (induction cs arbitrary: s) (auto split: option.splits dest: good_exec)

lemma reachable_good: "run cs init = Some s \<Longrightarrow> good s"
  using good_run [OF good_init] .

lemma exec_total: "good s \<Longrightarrow> \<exists>s'. exec c s = Some s'"
proof (cases c)
  case (StartListener i p r)
  assume "good s"
  then have "Active s (jobID s + 1) = None" by (simp add: good_def ids_ok_fresh)
  then show ?thesis
    using StartListener
    by (cases r) (simp_all add: start_failure start_success [where ln = "projr r"])
next
  case (StartCmd ctx r)
  assume "good s"
  then have "Active s (jobID s + 1) = None" by (simp add: good_def ids_ok_fresh)
  then show ?thesis
    using StartCmd
    by (cases r) (simp_all add: startMultiplayerModeCmd_def Let_def start_failure start_success [where ln = "projr r"])
qed simp_all

lemma run_total: "good s \<Longrightarrow> \<exists>s'. run cs s = Some s'"
proof (induction cs arbitrary: s)
  case (Cons c cs)
  from exec_total [OF Cons.prems] obtain s1 where s1: "exec c s = Some s1" by blast
  from good_exec [OF Cons.prems s1] Cons.IH [of s1] s1 show ?case by simp
qed simp

subsection \<open>Runs\<close>

lemma atomic_tasks:
  assumes "atomic s s'" and "k < length (tasks s)"
  shows "k < length (tasks s') \<and> tjob (tasks s' ! k) = tjob (tasks s ! k) \<and>
         tln (tasks s' ! k) = tln (tasks s ! k)"
  using assms
  by (induction rule: atomic.induct) (auto simp: nth_append tjob_update tln_update)

lemma atomics_tasks:
  assumes "atomic\<^sup>*\<^sup>* s s'" and "k < length (tasks s)"
  shows "k < length (tasks s') \<and> tjob (tasks s' ! k) = tjob (tasks s ! k) \<and>
         tln (tasks s' ! k) = tln (tasks s ! k)"
  using assms
  by (induction rule: rtranclp_induct) (auto dest: atomic_tasks)

lemma run_atomics: "good s \<Longrightarrow> run cs s = Some s' \<Longrightarrow> atomic\<^sup>*\<^sup>* s s'"
proof (induction cs arbitrary: s)
  case Nil
  then show ?case by simp
next
  case (Cons c cs)
  from Cons.prems(2) obtain s1 where s1: "exec c s = Some s1" and r: "run cs s1 = Some s'"
    by (auto split: option.splits)
  have "ids_ok s" using Cons.prems(1) by (simp add: good_def)
  from exec_atomic [OF this s1] Cons.IH [OF good_exec [OF Cons.prems(1) s1] r]
  show ?case by simp
qed

lemma run_tasks:
  assumes "good s" and "run cs s = Some s'" and "k < length (tasks s)"
  shows "k < length (tasks s') \<and> tjob (tasks s' ! k) = tjob (tasks s ! k) \<and>
         tln (tasks s' ! k) = tln (tasks s ! k)"
  using atomics_tasks [OF run_atomics [OF assms(1,2)] assms(3)] .

lemma shutdown_run:
  assumes k: "k < length (tasks s)" and pc: "tpc (tasks s ! k) = AwaitStop"
    and ch: "chans s (JobCtrl (tjob (tasks s ! k))) = v # vs"
  shows "run [Sched k, Sched k, Sched k, Sched k, Sched k] s =
     Some (s\<lparr>chans := (chans s)(JobCtrl (tjob (tasks s ! k)) := vs),
            closed := closed s @ [tln (tasks s ! k)],
            Active := (Active s)(ID (tjob (tasks s ! k)) := None),
            published := published s @ [\<lparr>Job = tjob (tasks s ! k), EventType = StoppedEvent\<rparr>],
            trace := trace s @
              [(Task k, Received (JobCtrl (tjob (tasks s ! k)))),
               (Task k, Logged (ID (tjob (tasks s ! k)))),
               (Task k, Closed (tln (tasks s ! k))),
               (Task k, Removed (tjob (tasks s ! k))),
               (Task k, Published \<lparr>Job = tjob (tasks s ! k), EventType = StoppedEvent\<rparr>)],
            tasks := (tasks s)[k := (tasks s ! k)\<lparr>tpc := Finished\<rparr>]\<rparr>)"
  using assms by (simp add: task_step_def prim_defs Let_def)

lemma run_append:
  "run (cs @ cs') s = (case run cs s of None \<Rightarrow> None | Some s1 \<Rightarrow> run cs' s1)"
  by (induction cs arbitrary: s) (simp_all split: option.splits)

lemmas eval_defs = jobStartClientListener_def startMultiplayerModeCmd_def StopJob_def
  task_step_def prim_defs Let_def init_def

lemma uint16_of_int64: "uint (ucast (w :: 64 word) :: 16 word) = sint w mod 2 ^ 16"
proof -
  have "uint (ucast w :: 16 word) = take_bit 16 (uint w)"
    by (simp add: unsigned_ucast_eq)
  also have "\<dots> = take_bit 16 (sint w)"
    by (simp add: sint_uint take_bit_signed_take_bit)
  finally show ?thesis by (simp add: take_bit_eq_mod)
qed

subsection \<open>A goroutine waits until its job is stopped\<close>

lemma start_good:
  assumes "good s" and "jobStartClientListener T i p s = Some (r, s')"
  shows "good s'"
proof -
  have "ids_ok s" using assms(1) by (simp add: good_def)
  from start_atomic [OF this assms(2)] assms(1) show ?thesis by (rule good_atomics)
qed

lemma exec_tasks:
  assumes "good s" and "exec c s = Some s'" and "k < length (tasks s)"
  shows "k < length (tasks s') \<and> tjob (tasks s' ! k) = tjob (tasks s ! k) \<and>
         tln (tasks s' ! k) = tln (tasks s ! k)"
proof -
  have "ids_ok s" using assms(1) by (simp add: good_def)
  from atomics_tasks [OF exec_atomic [OF this assms(2)] assms(3)] show ?thesis .
qed

lemma task_step_sends: "sends_on c (trace (task_step k s)) = sends_on c (trace s)"
  by (simp add: task_step_def prim_defs Let_def sends_on_append split: pc.splits list.splits)

lemma start_sends:
  assumes "good s" and "jobStartClientListener T i p s = Some (r, s')"
  shows "sends_on c (trace s') = sends_on c (trace s)"
proof (cases "T i p")
  case (Inl e)
  with assms(2) show ?thesis by (auto simp: start_failure emit_def sends_on_append)
next
  case (Inr ln)
  have "Active s (jobID s + 1) = None" using assms(1) by (simp add: good_def ids_ok_fresh)
  from start_success [of T i p ln s, OF Inr this] assms(2) show ?thesis
    by (auto simp: sends_on_append)
qed

lemma stop_sends:
  assumes g: "good s" and k: "k < length (tasks s)" and ne: "i \<noteq> ID (tjob (tasks s ! k))"
  shows "sends_on k (trace (snd (StopJob i s))) = sends_on k (trace s)"
proof (cases "Active s i")
  case None
  then show ?thesis by (simp add: StopJob_def)
next
  case (Some j)
  from g have sup: "sup_ok s" and ids: "ids_ok s" and ch: "chan_ok s" by (simp_all add: good_def)
  from sup_ok_registered [OF sup Some] obtain k0 where
    k0: "k0 < length (tasks s)" "tjob (tasks s ! k0) = j" by blast
  have "JobCtrl j = k0" using chan_ok_task [OF ch k0(1)] k0(2) by simp
  moreover have "ID j = i" using ids_okD [OF ids Some] by simp
  ultimately have "JobCtrl j \<noteq> k" using k0 ne by auto
  then show ?thesis by (simp add: StopJob_def Some send_def emit_def sends_on_append)
qed

lemma exec_sends:
  assumes g: "good s" and k: "k < length (tasks s)" and e: "exec c s = Some s'"
    and ne: "c \<noteq> Stop (ID (tjob (tasks s ! k)))"
  shows "sends_on k (trace s') = sends_on k (trace s)"
proof (cases c)
  case (StartListener i p r)
  with e obtain x where "jobStartClientListener (\<lambda>_ _. r) i p s = Some (x, s')" by auto
  from start_sends [OF g this] show ?thesis .
next
  case (StartCmd ctx r)
  with e obtain x s1 m where
    st: "jobStartClientListener (\<lambda>_ _. r) (FlagsString ctx ''server'') (ucast (FlagsInt ctx ''lport'')) s = Some (x, s1)"
    and s': "s' = emit Caller (Printed m) s1"
    by (auto simp: startMultiplayerModeCmd_def Let_def split: option.splits prod.splits)
  from start_sends [OF g st, of k] s' show ?thesis by (simp add: emit_def sends_on_append)
next
  case (Stop i)
  with e ne stop_sends [OF g k, of i] show ?thesis by auto
next
  case (Sched k')
  with e show ?thesis by (auto simp: task_step_sends)
qed

lemma run_sends:
  assumes "good s" and "k < length (tasks s)" and "run cs s = Some s'"
    and "Stop (ID (tjob (tasks s ! k))) \<notin> set cs"
  shows "sends_on k (trace s') = sends_on k (trace s)"
  using assms
proof (induction cs arbitrary: s)
  case Nil
  then show ?case by simp
next
  case (Cons c cs)
  from Cons.prems(3) obtain s1 where s1: "exec c s = Some s1" and r: "run cs s1 = Some s'"
    by (auto split: option.splits)
  note t = exec_tasks [OF Cons.prems(1) s1 Cons.prems(2)]
  have "sends_on k (trace s1) = sends_on k (trace s)"
    using exec_sends [OF Cons.prems(1,2) s1] Cons.prems(4) by auto
  moreover have "sends_on k (trace s') = sends_on k (trace s1)"
    using Cons.IH [OF good_exec [OF Cons.prems(1) s1] _ r] t Cons.prems(4) by simp
  ultimately show ?case by simp
qed

lemma idle_until_signal:
  assumes g: "good s" and k: "k < length (tasks s)" and z: "sends_on k (trace s) = 0"
  shows "tpc (tasks s ! k) = AwaitStop \<and> chans s k = [] \<and>
         actions_of (Task k) (trace s) = [] \<and> task_step k s = s \<and>
         Active s (ID (tjob (tasks s ! k))) = Some (tjob (tasks s ! k))"
proof -
  from g have sup: "sup_ok s" and tk: "tasks_ok s" and ch: "chan_ok s" by (simp_all add: good_def)
  from chan_ok_task [OF ch k] z have c: "JobCtrl (tjob (tasks s ! k)) = k"
    and pc: "tpc (tasks s ! k) = AwaitStop" and e: "chans s k = []"
    by (auto split: if_splits)
  have "actions_of (Task k) (trace s) = []" using tasks_okD [OF tk, of k] k pc by simp
  moreover have "task_step k s = s" using task_step_cases(1) [OF k pc] c e by simp
  moreover have "Active s (ID (tjob (tasks s ! k))) = Some (tjob (tasks s ! k))"
    using sup_ok_task [OF sup k] pc by simp
  ultimately show ?thesis using pc e by simp
qed

lemma wake_on_signal:
  assumes k: "k < length (tasks s)" and pc: "tpc (tasks s ! k) = AwaitStop"
    and e: "chans s k = []" and c: "JobCtrl (tjob (tasks s ! k)) = k"
    and a: "Active s (ID (tjob (tasks s ! k))) = Some (tjob (tasks s ! k))"
  shows "\<exists>s'. run [Stop (ID (tjob (tasks s ! k))), Sched k] s = Some s' \<and>
     trace s' = trace s @ [(Caller, Sent k True), (Task k, Received k)] \<and>
     tpc (tasks s' ! k) = LogStop"
  using assms by (simp add: StopJob_def task_step_def prim_defs Let_def)

subsection \<open>A stopped job is announced once\<close>

lemma finish_run:
  assumes k: "k < length (tasks s)" and st: "stage (tpc (tasks s ! k)) \<le> 3"
    and ch: "chans s (JobCtrl (tjob (tasks s ! k))) \<noteq> []"
  shows "\<exists>s'. run [Sched k, Sched k, Sched k, Sched k, Sched k] s = Some s' \<and>
     published s' = published s @ [\<lparr>Job = tjob (tasks s ! k), EventType = StoppedEvent\<rparr>] \<and>
     Active s' = (Active s)(ID (tjob (tasks s ! k)) := None) \<and>
     tpc (tasks s' ! k) = Finished"
proof (cases "tpc (tasks s ! k)")
  case AwaitStop
  from ch obtain v vs where "chans s (JobCtrl (tjob (tasks s ! k))) = v # vs"
    by (cases "chans s (JobCtrl (tjob (tasks s ! k)))") auto
  from shutdown_run [OF k AwaitStop this] k show ?thesis by simp
next
  case LogStop
  with k show ?thesis by (simp add: task_step_def prim_defs Let_def)
next
  case CloseListener
  with k show ?thesis by (simp add: task_step_def prim_defs Let_def)
next
  case Deregister
  with k show ?thesis by (simp add: task_step_def prim_defs Let_def)
next
  case Announce
  with st show ?thesis by simp
next
  case Finished
  with st show ?thesis by simp
qed

lemma stop_then_finish:
  assumes g: "good s" and a: "Active s i = Some job"
  shows "\<exists>k<length (tasks s). tjob (tasks s ! k) = job \<and>
     (\<exists>s'. run [Stop i, Sched k, Sched k, Sched k, Sched k, Sched k] s = Some s' \<and>
        published s' = published s @ [\<lparr>Job = job, EventType = JobStopped\<rparr>] \<and>
        Active s' = (Active s)(i := None) \<and>
        tpc (tasks s' ! k) = Finished)"
proof -
  from g have sup: "sup_ok s" and ids: "ids_ok s" by (simp_all add: good_def)
  from sup_ok_registered [OF sup a] obtain k where
    k: "k < length (tasks s)" and j: "tjob (tasks s ! k) = job"
    and st: "stage (tpc (tasks s ! k)) \<le> 3"
    by blast
  have idj: "ID job = i" using ids_okD [OF ids a] by simp
  let ?s1 = "snd (StopJob i s)"
  have s1: "tasks ?s1 = tasks s" "published ?s1 = published s" "Active ?s1 = Active s"
    "chans ?s1 (JobCtrl job) \<noteq> []"
    using a by (simp_all add: StopJob_def send_def emit_def)
  from finish_run [of k ?s1] k j st s1 obtain s' where
    "run [Sched k, Sched k, Sched k, Sched k, Sched k] ?s1 = Some s'"
    "published s' = published s @ [\<lparr>Job = job, EventType = StoppedEvent\<rparr>]"
    "Active s' = (Active s)(ID job := None)"
    "tpc (tasks s' ! k) = Finished"
    by auto
  then have "run [Stop i, Sched k, Sched k, Sched k, Sched k, Sched k] s = Some s' \<and>
        published s' = published s @ [\<lparr>Job = job, EventType = JobStopped\<rparr>] \<and>
        Active s' = (Active s)(i := None) \<and>
        tpc (tasks s' ! k) = Finished"
    using idj by (simp add: StoppedEvent_def)
  with k j show ?thesis by blast
qed

lemma task_ids_distinct:
  assumes "sup_ok s"
  shows "distinct (map (\<lambda>t. ID (tjob t)) (tasks s))"
  unfolding distinct_conv_nth
  using sup_ok_unique [OF assms] by (auto simp: nth_map)

lemma published_distinct:
  assumes "good s"
  shows "distinct (published s)"
proof -
  from assms have sup: "sup_ok s" and ev: "ev_ok s" by (simp_all add: good_def)
  let ?fin = "filter (\<lambda>t. tpc t = Finished) (tasks s)"
  have "distinct (map (\<lambda>t. ID (tjob t)) ?fin)"
    using task_ids_distinct [OF sup] by (rule distinct_map_filter)
  moreover have "map (\<lambda>t. ID (tjob t)) ?fin = map (\<lambda>e. ID (Job e)) (map stop_event ?fin)"
    by (simp add: stop_event_def)
  ultimately have "distinct (map (\<lambda>e. ID (Job e)) (map stop_event ?fin))" by simp
  then have "distinct (map stop_event ?fin)"
    using distinct_map [of "\<lambda>e. ID (Job e)" "map stop_event ?fin"] by blast
  moreover have "mset (published s) = mset (map stop_event ?fin)"
    using ev by (simp add: ev_ok_def)
  ultimately show ?thesis using mset_eq_imp_distinct_iff by blast
qed

lemma finished_event_once:
  assumes g: "good s" and k: "k < length (tasks s)" and f: "tpc (tasks s ! k) = Finished"
  shows "count_list (published s) \<lparr>Job = tjob (tasks s ! k), EventType = JobStopped\<rparr> = 1"
proof -
  from g have ev: "ev_ok s" by (simp add: good_def)
  let ?e = "\<lparr>Job = tjob (tasks s ! k), EventType = JobStopped\<rparr>"
  have "tasks s ! k \<in> set (filter (\<lambda>t. tpc t = Finished) (tasks s))"
    using k f by simp
  then have "stop_event (tasks s ! k) \<in> set (map stop_event (filter (\<lambda>t. tpc t = Finished) (tasks s)))"
    by simp
  moreover have "set (published s) = set (map stop_event (filter (\<lambda>t. tpc t = Finished) (tasks s)))"
    using ev unfolding ev_ok_def by (rule mset_eq_setD)
  ultimately have "?e \<in> set (published s)" by (simp add: stop_event_def StoppedEvent_def)
  with published_distinct [OF g] have "count (mset (published s)) ?e = 1"
    by (simp add: distinct_count_atmost_1)
  then show ?thesis by (simp add: count_mset)
qed

lemma registered_not_published:
  assumes g: "good s" and a: "Active s i = Some job"
  shows "\<lparr>Job = job, EventType = JobStopped\<rparr> \<notin> set (published s)"
proof
  assume m: "\<lparr>Job = job, EventType = JobStopped\<rparr> \<in> set (published s)"
  from g have sup: "sup_ok s" and ev: "ev_ok s" by (simp_all add: good_def)
  have "set (published s) = set (map stop_event (filter (\<lambda>t. tpc t = Finished) (tasks s)))"
    using ev unfolding ev_ok_def by (rule mset_eq_setD)
  with m obtain t where t: "t \<in> set (tasks s)" "tpc t = Finished" "tjob t = job"
    by (auto simp: stop_event_def)
  then obtain k where k: "k < length (tasks s)" "tasks s ! k = t"
    by (auto simp: in_set_conv_nth)
  from sup_ok_registered [OF sup a] obtain k0 where
    k0: "k0 < length (tasks s)" "tjob (tasks s ! k0) = job" "stage (tpc (tasks s ! k0)) \<le> 3"
    by blast
  have "k0 = k" using sup_ok_unique [OF sup k0(1) k(1)] k0(2) k(2) t(3) by simp
  with k0(3) k(2) t(2) show False by simp
qed

lemma complete_run:
  assumes k: "k < length (tasks s)"
    and sig: "tpc (tasks s ! k) = AwaitStop \<longrightarrow> chans s (JobCtrl (tjob (tasks s ! k))) \<noteq> []"
  shows "\<exists>s'. run [Sched k, Sched k, Sched k, Sched k, Sched k] s = Some s' \<and>
     tpc (tasks s' ! k) = Finished"
proof (cases "tpc (tasks s ! k)")
  case AwaitStop
  with sig obtain v vs where "chans s (JobCtrl (tjob (tasks s ! k))) = v # vs"
    by (cases "chans s (JobCtrl (tjob (tasks s ! k)))") auto
  from shutdown_run [OF k AwaitStop this] k show ?thesis by simp
qed (use k in \<open>simp_all add: task_step_def prim_defs Let_def\<close>)

lemma atomic_sends_mono:
  assumes "atomic s s'"
  shows "sends_on c (trace s) \<le> sends_on c (trace s')"
  using assms by (induction rule: atomic.induct) (simp_all add: sends_on_append)

lemma atomics_sends_mono:
  assumes "atomic\<^sup>*\<^sup>* s s'"
  shows "sends_on c (trace s) \<le> sends_on c (trace s')"
  using assms
  by (induction rule: rtranclp_induct) (auto intro: order_trans atomic_sends_mono)

lemma finished_not_registered:
  assumes g: "good s" and k: "k < length (tasks s)" and f: "tpc (tasks s ! k) = Finished"
  shows "Active s (ID (tjob (tasks s ! k))) = None"
proof (cases "Active s (ID (tjob (tasks s ! k)))")
  case (Some j)
  from g have sup: "sup_ok s" and ids: "ids_ok s" by (simp_all add: good_def)
  from sup_ok_registered [OF sup Some] obtain k0 where
    k0: "k0 < length (tasks s)" "tjob (tasks s ! k0) = j" "stage (tpc (tasks s ! k0)) \<le> 3"
    by blast
  have "ID j = ID (tjob (tasks s ! k))" using ids_okD [OF ids Some] by simp
  then have "k0 = k" using sup_ok_unique [OF sup k0(1) k] k0(2) by simp
  with k0(3) f show ?thesis by simp
qed simp

lemma stop_never_lost:
  assumes g: "good s" and a: "Active s i = Some job"
  shows "\<exists>k<length (tasks s). tjob (tasks s ! k) = job \<and>
     (\<forall>cs' s''. run (Stop i # cs') s = Some s'' \<longrightarrow>
        (\<exists>s3. run [Sched k, Sched k, Sched k, Sched k, Sched k] s'' = Some s3 \<and>
           tpc (tasks s3 ! k) = Finished \<and>
           count_list (published s3) \<lparr>Job = job, EventType = JobStopped\<rparr> = 1 \<and>
           Active s3 i = None))"
proof -
  from g have sup: "sup_ok s" and ids: "ids_ok s" and ch: "chan_ok s"
    by (simp_all add: good_def)
  from sup_ok_registered [OF sup a] obtain k where
    k: "k < length (tasks s)" and j: "tjob (tasks s ! k) = job"
    by blast
  have idj: "ID job = i" using ids_okD [OF ids a] by simp
  have c: "JobCtrl job = k" using chan_ok_task [OF ch k] j by simp
  let ?s1 = "snd (StopJob i s)"
  have e1: "exec (Stop i) s = Some ?s1" by simp
  have g1: "good ?s1" using g e1 by (rule good_exec)
  have k1: "k < length (tasks ?s1)" and j1: "tjob (tasks ?s1 ! k) = job"
    using exec_tasks [OF g e1 k] j by simp_all
  have sent: "0 < sends_on k (trace ?s1)"
    using a c by (simp add: StopJob_def send_def emit_def sends_on_append)
  have "\<exists>s3. run [Sched k, Sched k, Sched k, Sched k, Sched k] s'' = Some s3 \<and>
           tpc (tasks s3 ! k) = Finished \<and>
           count_list (published s3) \<lparr>Job = job, EventType = JobStopped\<rparr> = 1 \<and>
           Active s3 i = None"
    if r: "run (Stop i # cs') s = Some s''" for cs' s''
  proof -
    from r have r1: "run cs' ?s1 = Some s''" by simp
    have g2: "good s''" using g1 r1 by (rule good_run)
    have k2: "k < length (tasks s'')" and j2: "tjob (tasks s'' ! k) = job"
      using run_tasks [OF g1 r1 k1] j1 by simp_all
    have "sends_on k (trace ?s1) \<le> sends_on k (trace s'')"
      using run_atomics [OF g1 r1] by (rule atomics_sends_mono)
    with sent have pos: "0 < sends_on k (trace s'')" by simp
    have ch2: "chan_ok s''" using g2 by (simp add: good_def)
    have sig: "tpc (tasks s'' ! k) = AwaitStop \<longrightarrow>
        chans s'' (JobCtrl (tjob (tasks s'' ! k))) \<noteq> []"
      using chan_ok_task [OF ch2 k2] pos by auto
    from complete_run [OF k2 sig] obtain s3 where
      r3: "run [Sched k, Sched k, Sched k, Sched k, Sched k] s'' = Some s3"
      and f3: "tpc (tasks s3 ! k) = Finished"
      by blast
    have g3: "good s3" using g2 r3 by (rule good_run)
    have k3: "k < length (tasks s3)" and j3: "tjob (tasks s3 ! k) = job"
      using run_tasks [OF g2 r3 k2] j2 by simp_all
    from finished_event_once [OF g3 k3 f3] finished_not_registered [OF g3 k3 f3] j3 idj r3 f3
    show ?thesis by simp
  qed
  with k j show ?thesis by blast
qed

section \<open>Properties of the default host process\<close>

text \<open>
  C10. For the target \<open>linux\<close> the table holds the Windows constant, so
  \<^verbatim>\<open>getDefaultProcess\<close> returns the notepad path (written out character by character,
  with single backslashes) and no error; and whatever the target, the process returned
  is never the declared Linux constant \<open>/bin/bash\<close>.
\<close>

theorem getDefaultProcess_linux_is_notepad:
  "getDefaultProcess ''linux'' =
     (''c:'' @ [CHR 0x5C] @ ''windows'' @ [CHR 0x5C] @ ''system32'' @ [CHR 0x5C] @ ''notepad.exe'', None)
   \<and> defaultHostProc ''linux'' = Some windowsDefaultHostProc
   \<and> linuxDefaultHostProc = ''/bin/bash''
   \<and> (\<forall>targetOS. fst (getDefaultProcess targetOS) \<noteq> linuxDefaultHostProc)"
  by (simp add: getDefaultProcess_def defaultHostProc_def windowsDefaultHostProc_def
      linuxDefaultHostProc_def macosDefaultHostProc_def)

section \<open>Properties of the job control core\<close>

text \<open>
  C1. Every registered job of a reachable state has a supervising goroutine \<open>k\<close>, a closure
  over that job and its listener \<open>ln\<close>. Whatever the server does next, in whatever
  interleaving, what goroutine \<open>k\<close> has done is a prefix of: receive the stop signal,
  write the log line, close \<open>ln\<close>, remove the job from the registry, publish the
  "stopped" event carrying the job; so each step happens at most once and in this order.
  And when the stop signal has fired (a value is offered on the stop channel and the
  goroutine waits for it), the five statements of the goroutine run to the end of its body:
  they add exactly these actions to the trace, close the listener, delete the registry
  entry and hand the one event to the broker.
\<close>

theorem supervisor_shutdown_sequence:
  assumes reach: "run cs init = Some s" and reg: "Active s i = Some job"
  shows "\<exists>k ln. k < length (tasks s) \<and> tjob (tasks s ! k) = job \<and> tln (tasks s ! k) = ln \<and>
     (\<forall>cs' s'. run cs' s = Some s' \<longrightarrow>
        k < length (tasks s') \<and>
        actions_of (Task k) (trace s') =
          take (stage (tpc (tasks s' ! k)))
            [Received (JobCtrl job), Logged (ID job), Closed ln, Removed job,
             Published \<lparr>Job = job, EventType = JobStopped\<rparr>]) \<and>
     (tpc (tasks s ! k) = AwaitStop \<and> chans s (JobCtrl job) \<noteq> [] \<longrightarrow>
        (\<exists>s'. run [Sched k, Sched k, Sched k, Sched k, Sched k] s = Some s' \<and>
           tpc (tasks s' ! k) = Finished \<and>
           trace s' = trace s @
             [(Task k, Received (JobCtrl job)), (Task k, Logged (ID job)),
              (Task k, Closed ln), (Task k, Removed job),
              (Task k, Published \<lparr>Job = job, EventType = JobStopped\<rparr>)] \<and>
           closed s' = closed s @ [ln] \<and>
           Active s' = (Active s)(i := None) \<and>
           published s' = published s @ [\<lparr>Job = job, EventType = JobStopped\<rparr>]))"
proof -
  have g: "good s" using reach by (rule reachable_good)
  then have sup: "sup_ok s" and ids: "ids_ok s" by (simp_all add: good_def)
  from sup_ok_registered [OF sup reg] obtain k where
    k: "k < length (tasks s)" and j: "tjob (tasks s ! k) = job"
    by blast
  have idj: "ID job = i" using ids_okD [OF ids reg] by simp
  have later: "k < length (tasks s') \<and>
        actions_of (Task k) (trace s') =
          take (stage (tpc (tasks s' ! k)))
            [Received (JobCtrl job), Logged (ID job), Closed (tln (tasks s ! k)), Removed job,
             Published \<lparr>Job = job, EventType = JobStopped\<rparr>]"
    if r: "run cs' s = Some s'" for cs' s'
  proof -
    from run_tasks [OF g r k] j have k': "k < length (tasks s')"
      and same: "tjob (tasks s' ! k) = job" "tln (tasks s' ! k) = tln (tasks s ! k)"
      by simp_all
    have "tasks_ok s'" using good_run [OF g r] by (simp add: good_def)
    from tasks_okD [OF this, of k] k' same show ?thesis
      by (simp add: supervisor_actions_def stop_event_def StoppedEvent_def)
  qed
  have now: "\<exists>s'. run [Sched k, Sched k, Sched k, Sched k, Sched k] s = Some s' \<and>
           tpc (tasks s' ! k) = Finished \<and>
           trace s' = trace s @
             [(Task k, Received (JobCtrl job)), (Task k, Logged (ID job)),
              (Task k, Closed (tln (tasks s ! k))), (Task k, Removed job),
              (Task k, Published \<lparr>Job = job, EventType = JobStopped\<rparr>)] \<and>
           closed s' = closed s @ [tln (tasks s ! k)] \<and>
           Active s' = (Active s)(i := None) \<and>
           published s' = published s @ [\<lparr>Job = job, EventType = JobStopped\<rparr>]"
    if pc: "tpc (tasks s ! k) = AwaitStop" and ch: "chans s (JobCtrl job) \<noteq> []"
  proof -
    from ch obtain v vs where "chans s (JobCtrl (tjob (tasks s ! k))) = v # vs"
      using j by (cases "chans s (JobCtrl job)") auto
    from shutdown_run [OF k pc this] k j idj show ?thesis
      by (simp add: StoppedEvent_def)
  qed
  from k j later now show ?thesis by blast
qed

text \<open>
  The scenario of the spec: the listener is started on port 9000, job 1 is stopped, and
  goroutine 0 executes its five statements.
\<close>

theorem supervisor_shutdown_sequence_witness:
  "run [StartListener ''0.0.0.0'' 9000 (Inr 7), Stop 1] init \<noteq> None \<and>
   Active (the (run [StartListener ''0.0.0.0'' 9000 (Inr 7), Stop 1] init)) 1 =
     Some \<lparr>ID = 1, Name = ''rpc'', Description = ''client listener'', Protocol = ''tcp'',
           Port = 9000, JobCtrl = 0\<rparr> \<and>
   actions_of (Task 0)
     (trace (the (run [StartListener ''0.0.0.0'' 9000 (Inr 7), Stop 1,
                       Sched 0, Sched 0, Sched 0, Sched 0, Sched 0] init))) =
     [Received 0, Logged 1, Closed 7,
      Removed \<lparr>ID = 1, Name = ''rpc'', Description = ''client listener'', Protocol = ''tcp'',
               Port = 9000, JobCtrl = 0\<rparr>,
      Published \<lparr>Job = \<lparr>ID = 1, Name = ''rpc'', Description = ''client listener'',
                        Protocol = ''tcp'', Port = 9000, JobCtrl = 0\<rparr>,
                 EventType = JobStopped\<rparr>]"
proof -
  define S where "S = the (run [StartListener ''0.0.0.0'' 9000 (Inr 7), Stop 1] init)"
  define J where "J = \<lparr>ID = 1, Name = ''rpc'', Description = ''client listener'',
    Protocol = ''tcp'', Port = (9000 :: 16 word), JobCtrl = (0 :: nat)\<rparr>"
  have r: "run [StartListener ''0.0.0.0'' 9000 (Inr 7), Stop 1] init = Some S"
    unfolding S_def by (simp add: eval_defs)
  have a: "Active S 1 = Some J"
    unfolding S_def J_def by (simp add: eval_defs)
  have t: "length (tasks S) = 1" "tln (tasks S ! 0) = 7"
    unfolding S_def by (simp_all add: eval_defs)
  have r5: "run [Sched 0, Sched 0, Sched 0, Sched 0, Sched 0] S =
      Some (the (run [Sched 0, Sched 0, Sched 0, Sched 0, Sched 0] S))"
    by simp
  have fin: "tpc (tasks (the (run [Sched 0, Sched 0, Sched 0, Sched 0, Sched 0] S)) ! 0) = Finished"
    unfolding S_def by (simp add: eval_defs)
  from supervisor_shutdown_sequence [OF r a] obtain k ln where
    k: "k < length (tasks S)" "tln (tasks S ! k) = ln"
    and all: "\<forall>cs' s'. run cs' S = Some s' \<longrightarrow>
        actions_of (Task k) (trace s') =
          take (stage (tpc (tasks s' ! k)))
            [Received (JobCtrl J), Logged (ID J), Closed ln, Removed J,
             Published \<lparr>Job = J, EventType = JobStopped\<rparr>]"
    by blast
  from k t have k0: "k = 0" "ln = 7" by simp_all
  from all r5 have "actions_of (Task k) (trace (the (run [Sched 0, Sched 0, Sched 0, Sched 0, Sched 0] S))) =
          take (stage (tpc (tasks (the (run [Sched 0, Sched 0, Sched 0, Sched 0, Sched 0] S)) ! k)))
            [Received (JobCtrl J), Logged (ID J), Closed ln, Removed J,
             Published \<lparr>Job = J, EventType = JobStopped\<rparr>]"
    by blast
  then have "actions_of (Task 0) (trace (the (run [Sched 0, Sched 0, Sched 0, Sched 0, Sched 0] S))) =
            [Received 0, Logged 1, Closed 7, Removed J,
             Published \<lparr>Job = J, EventType = JobStopped\<rparr>]"
    unfolding k0 fin by (simp add: J_def)
  moreover have "the (run [Sched 0, Sched 0, Sched 0, Sched 0, Sched 0] S) =
     the (run [StartListener ''0.0.0.0'' 9000 (Inr 7), Stop 1,
                       Sched 0, Sched 0, Sched 0, Sched 0, Sched 0] init)"
    using r run_append [of "[StartListener ''0.0.0.0'' 9000 (Inr 7), Stop 1]"
        "[Sched 0, Sched 0, Sched 0, Sched 0, Sched 0]" init]
    by (simp del: run.simps)
  ultimately show ?thesis using r a by (simp add: J_def del: run.simps)
qed

text \<open>
  C2. When the transport fails to bind, \<^verbatim>\<open>jobStartClientListener\<close> returns the bind error
  (with -1). No job is constructed: no identifier is allocated, no channel is made, no
  goroutine is started. The registry and the events handed to the broker are what they
  were; only the bind attempt is written to the trace.
\<close>

theorem bind_failure_changes_nothing:
  assumes "StartClientListener bindIface port = Inl err"
  shows "\<exists>s'. jobStartClientListener StartClientListener bindIface port s =
            Some ((- 1, Some err), s') \<and>
          Active s' = Active s \<and> published s' = published s \<and> jobID s' = jobID s \<and>
          nchans s' = nchans s \<and> chans s' = chans s \<and> tasks s' = tasks s \<and>
          closed s' = closed s \<and> trace s' = trace s @ [(Caller, Bound bindIface port)]"
  using assms by (simp add: start_failure emit_def)

text \<open>
  With job 1 running on port 9000, a second bind that fails leaves job 1 as the only
  registry entry and publishes nothing.
\<close>

theorem bind_failure_changes_nothing_witness:
  "run [StartListener ''0.0.0.0'' 9000 (Inr 7)] init \<noteq> None \<and>
   map_option fst
     (jobStartClientListener (bind_refused ''address already in use'')
        ''0.0.0.0'' 9000 (the (run [StartListener ''0.0.0.0'' 9000 (Inr 7)] init))) =
     Some (- 1, Some (TransportError ''address already in use'')) \<and>
   dom (Active (snd (the
     (jobStartClientListener (bind_refused ''address already in use'')
        ''0.0.0.0'' 9000 (the (run [StartListener ''0.0.0.0'' 9000 (Inr 7)] init)))))) = {1} \<and>
   published (snd (the
     (jobStartClientListener (bind_refused ''address already in use'')
        ''0.0.0.0'' 9000 (the (run [StartListener ''0.0.0.0'' 9000 (Inr 7)] init))))) = []"
proof -
  define S where "S = the (run [StartListener ''0.0.0.0'' 9000 (Inr 7)] init)"
  define T :: "string \<Rightarrow> 16 word \<Rightarrow> error + listener"
    where "T = (bind_refused ''address already in use'')"
  have f: "T ''0.0.0.0'' 9000 = Inl (TransportError ''address already in use'')"
    by (simp add: T_def bind_refused_def)
  have S: "run [StartListener ''0.0.0.0'' 9000 (Inr 7)] init \<noteq> None"
    "dom (Active S) = {1}" "published S = []"
    unfolding S_def by (simp_all add: eval_defs dom_def)
  from bind_failure_changes_nothing [of T "''0.0.0.0''" 9000 _ S, OF f] obtain s' where
    "jobStartClientListener T ''0.0.0.0'' 9000 S =
       Some ((- 1, Some (TransportError ''address already in use'')), s')"
    "Active s' = Active S" "published s' = published S"
    by blast
  with S show ?thesis unfolding S_def [symmetric] T_def [symmetric] by simp
qed

text \<open>
  C3, as stated, fails: from the initial state a successful launch starts the goroutine
  (\<^verbatim>\<open>go func() { ... }()\<close>) before it registers the job (\<^verbatim>\<open>core.Jobs.AddJob(job)\<close>), so
  the registration does not precede the start of the supervising task.
\<close>

theorem launch_order_counterexample:
  "trace (snd (the (jobStartClientListener (bind_ok 7) ''0.0.0.0'' 9000 init))) =
     [(Caller, Bound ''0.0.0.0'' 9000), (Caller, Allocated 1), (Caller, ChanMade 0),
      (Caller, Spawned 0),
      (Caller, Registered \<lparr>ID = 1, Name = ''rpc'', Description = ''client listener'',
                            Protocol = ''tcp'', Port = 9000, JobCtrl = 0\<rparr>)] \<and>
   \<not> precedes
       (Caller, Registered \<lparr>ID = 1, Name = ''rpc'', Description = ''client listener'',
                            Protocol = ''tcp'', Port = 9000, JobCtrl = 0\<rparr>)
       (Caller, Spawned 0)
       (trace (snd (the (jobStartClientListener (bind_ok 7) ''0.0.0.0'' 9000 init)))) \<and>
   precedes
       (Caller, Spawned 0)
       (Caller, Registered \<lparr>ID = 1, Name = ''rpc'', Description = ''client listener'',
                            Protocol = ''tcp'', Port = 9000, JobCtrl = 0\<rparr>)
       (trace (snd (the (jobStartClientListener (bind_ok 7) ''0.0.0.0'' 9000 init))))"
  by (simp add: eval_defs precedes_def bind_ok_def)

text \<open>
  C3, amended. In every successful launch from a reachable state the caller binds,
  allocates the identifier, makes the stop channel, starts the supervising goroutine and
  then registers the job, in this order; the registration is the last action before the
  return, and the identifier returned is the one of the registered job. The goroutine
  started does nothing until the stop signal fires: whatever the server does after the
  return, in whatever interleaving, as long as the new job is not stopped the goroutine is
  still at its receive, has performed no action, a step of it leaves the state as it is,
  and the job is still registered; and in each of these states, once the job is stopped
  the next step of the goroutine is the receive of the signal.
\<close>

theorem launch_spawns_then_registers:
  assumes "run cs init = Some s" and "T bindIface port = Inr ln"
  shows "\<exists>s' job.
     jobStartClientListener T bindIface port s = Some ((ID job, None), s') \<and>
     trace s' = trace s @
       [(Caller, Bound bindIface port), (Caller, Allocated (ID job)),
        (Caller, ChanMade (JobCtrl job)), (Caller, Spawned (length (tasks s))),
        (Caller, Registered job)] \<and>
     precedes (Caller, Spawned (length (tasks s))) (Caller, Registered job)
       (drop (length (trace s)) (trace s')) \<and>
     \<not> precedes (Caller, Registered job) (Caller, Spawned (length (tasks s)))
       (drop (length (trace s)) (trace s')) \<and>
     Active s' = (Active s)(ID job \<mapsto> job) \<and>
     tasks s' = tasks s @ [\<lparr>tjob = job, tln = ln, tpc = AwaitStop\<rparr>] \<and>
     actions_of (Task (length (tasks s))) (trace s') = [] \<and>
     (\<forall>cs' s''. run cs' s' = Some s'' \<and> Stop (ID job) \<notin> set cs' \<longrightarrow>
        length (tasks s) < length (tasks s'') \<and>
        tjob (tasks s'' ! length (tasks s)) = job \<and>
        tpc (tasks s'' ! length (tasks s)) = AwaitStop \<and>
        actions_of (Task (length (tasks s))) (trace s'') = [] \<and>
        task_step (length (tasks s)) s'' = s'' \<and>
        Active s'' (ID job) = Some job \<and>
        (\<exists>s3. run [Stop (ID job), Sched (length (tasks s))] s'' = Some s3 \<and>
           actions_of (Task (length (tasks s))) (trace s3) = [Received (JobCtrl job)] \<and>
           tpc (tasks s3 ! length (tasks s)) = LogStop))"
proof -
  have g: "good s" using assms(1) by (rule reachable_good)
  then have ids: "ids_ok s" and tk: "tasks_ok s" and ch: "chan_ok s"
    by (simp_all add: good_def)
  have fresh: "Active s (jobID s + 1) = None" using ids by (rule ids_ok_fresh)
  have idle: "actions_of (Task (length (tasks s))) (trace s) = []"
    using tasks_okD [OF tk, of "length (tasks s)"] by simp
  let ?k = "length (tasks s)"
  let ?job = "\<lparr>ID = jobID s + 1, Name = ''rpc'', Description = ''client listener'',
             Protocol = ''tcp'', Port = port, JobCtrl = nchans s\<rparr>"
  let ?s' = "snd (the (jobStartClientListener T bindIface port s))"
  note st = start_success [of T bindIface port ln s, OF assms(2) fresh]
  have call: "jobStartClientListener T bindIface port s = Some ((ID ?job, None), ?s')"
    using st by simp
  have g': "good ?s'" using g call by (rule start_good)
  have k': "?k < length (tasks ?s')" and j': "tjob (tasks ?s' ! ?k) = ?job"
    using st by simp_all
  have z': "sends_on ?k (trace ?s') = 0"
    using st chan_ok_unused [OF ch, of ?k] by (simp add: sends_on_append)
  have c: "JobCtrl ?job = ?k" using chan_ok_count [OF ch] by simp
  have static: "trace ?s' = trace s @
       [(Caller, Bound bindIface port), (Caller, Allocated (ID ?job)),
        (Caller, ChanMade (JobCtrl ?job)), (Caller, Spawned ?k),
        (Caller, Registered ?job)] \<and>
     precedes (Caller, Spawned ?k) (Caller, Registered ?job)
       (drop (length (trace s)) (trace ?s')) \<and>
     \<not> precedes (Caller, Registered ?job) (Caller, Spawned ?k)
       (drop (length (trace s)) (trace ?s')) \<and>
     Active ?s' = (Active s)(ID ?job \<mapsto> ?job) \<and>
     tasks ?s' = tasks s @ [\<lparr>tjob = ?job, tln = ln, tpc = AwaitStop\<rparr>] \<and>
     actions_of (Task ?k) (trace ?s') = []"
    using st idle
    by (simp add: precedes_def actions_of_append actions_of_Cons actions_of_Nil)
  have later: "?k < length (tasks s'') \<and>
        tjob (tasks s'' ! ?k) = ?job \<and>
        tpc (tasks s'' ! ?k) = AwaitStop \<and>
        actions_of (Task ?k) (trace s'') = [] \<and>
        task_step ?k s'' = s'' \<and>
        Active s'' (ID ?job) = Some ?job \<and>
        (\<exists>s3. run [Stop (ID ?job), Sched ?k] s'' = Some s3 \<and>
           actions_of (Task ?k) (trace s3) = [Received (JobCtrl ?job)] \<and>
           tpc (tasks s3 ! ?k) = LogStop)"
    if r: "run cs' ?s' = Some s''" and ns: "Stop (ID ?job) \<notin> set cs'" for cs' s''
  proof -
    have g'': "good s''" using g' r by (rule good_run)
    from run_tasks [OF g' r k'] j' have k'': "?k < length (tasks s'')"
      and j'': "tjob (tasks s'' ! ?k) = ?job" by simp_all
    have "sends_on ?k (trace s'') = sends_on ?k (trace ?s')"
      using run_sends [OF g' k' r] ns j' by simp
    with z' have z'': "sends_on ?k (trace s'') = 0" by simp
    note i = idle_until_signal [OF g'' k'' z'']
    from wake_on_signal [OF k''] i j'' c obtain s3 where
      s3: "run [Stop (ID ?job), Sched ?k] s'' = Some s3"
        "trace s3 = trace s'' @ [(Caller, Sent ?k True), (Task ?k, Received ?k)]"
        "tpc (tasks s3 ! ?k) = LogStop"
      by auto
    have "actions_of (Task ?k) (trace s3) = [Received (JobCtrl ?job)]"
      using s3(2) i c by (simp add: actions_of_append actions_of_Cons actions_of_Nil)
    with s3 i j'' k'' show ?thesis by auto
  qed
  from call static later show ?thesis
    by (intro exI [of _ ?s'] exI [of _ ?job]) blast
qed

text \<open>
  A second listener on port 9001, after the first: the five actions the call adds to the
  trace. Then the scheduler runs goroutine 1 twice and job 1 is stopped: goroutine 0 has
  received its signal, goroutine 1 has done nothing.
\<close>

theorem launch_spawns_then_registers_witness:
  "run [StartListener ''0.0.0.0'' 9000 (Inr 7)] init \<noteq> None \<and>
   map_option fst
     (jobStartClientListener (\<lambda>_ _. Inr 8) ''127.0.0.1'' 9001
        (the (run [StartListener ''0.0.0.0'' 9000 (Inr 7)] init))) = Some (2, None) \<and>
   drop 5 (trace (snd (the
     (jobStartClientListener (\<lambda>_ _. Inr 8) ''127.0.0.1'' 9001
        (the (run [StartListener ''0.0.0.0'' 9000 (Inr 7)] init)))))) =
     [(Caller, Bound ''127.0.0.1'' 9001), (Caller, Allocated 2), (Caller, ChanMade 1),
      (Caller, Spawned 1),
      (Caller, Registered \<lparr>ID = 2, Name = ''rpc'', Description = ''client listener'',
                            Protocol = ''tcp'', Port = 9001, JobCtrl = 1\<rparr>)] \<and>
   run [Sched 1, Stop 1, Sched 0, Sched 1]
     (snd (the (jobStartClientListener (\<lambda>_ _. Inr 8) ''127.0.0.1'' 9001
        (the (run [StartListener ''0.0.0.0'' 9000 (Inr 7)] init))))) \<noteq> None \<and>
   actions_of (Task 1) (trace (the (run [Sched 1, Stop 1, Sched 0, Sched 1]
     (snd (the (jobStartClientListener (\<lambda>_ _. Inr 8) ''127.0.0.1'' 9001
        (the (run [StartListener ''0.0.0.0'' 9000 (Inr 7)] init)))))))) = [] \<and>
   tpc (tasks (the (run [Sched 1, Stop 1, Sched 0, Sched 1]
     (snd (the (jobStartClientListener (\<lambda>_ _. Inr 8) ''127.0.0.1'' 9001
        (the (run [StartListener ''0.0.0.0'' 9000 (Inr 7)] init))))))) ! 1) = AwaitStop \<and>
   actions_of (Task 0) (trace (the (run [Sched 1, Stop 1, Sched 0, Sched 1]
     (snd (the (jobStartClientListener (\<lambda>_ _. Inr 8) ''127.0.0.1'' 9001
        (the (run [StartListener ''0.0.0.0'' 9000 (Inr 7)] init)))))))) = [Received 0]"
proof -
  define S where "S = the (run [StartListener ''0.0.0.0'' 9000 (Inr 7)] init)"
  define T :: "string \<Rightarrow> 16 word \<Rightarrow> error + listener" where "T = (\<lambda>_ _. Inr 8)"
  define S' where "S' = snd (the (jobStartClientListener T ''127.0.0.1'' 9001 S))"
  define S'' where "S'' = the (run [Sched 1, Stop 1, Sched 0, Sched 1] S')"
  have r: "run [StartListener ''0.0.0.0'' 9000 (Inr 7)] init = Some S"
    unfolding S_def by (simp add: eval_defs)
  have S: "length (trace S) = 5" "length (tasks S) = 1" "jobID S = 1" "nchans S = 1"
    "Active S 2 = None"
    unfolding S_def by (simp_all add: eval_defs)
  have ok: "T ''127.0.0.1'' 9001 = Inr 8" by (simp add: T_def)
  have r'': "run [Sched 1, Stop 1, Sched 0, Sched 1] S' = Some S''"
    unfolding S''_def S'_def S_def T_def by (simp add: eval_defs)
  have other: "actions_of (Task 0) (trace S'') = [Received 0]"
    unfolding S''_def S'_def S_def T_def by (simp add: eval_defs actions_of_def)
  from launch_spawns_then_registers [where T = T, OF r ok] obtain s' job where
    st: "jobStartClientListener T ''127.0.0.1'' 9001 S = Some ((ID job, None), s')"
    and tr: "trace s' = trace S @
       [(Caller, Bound ''127.0.0.1'' 9001), (Caller, Allocated (ID job)),
        (Caller, ChanMade (JobCtrl job)), (Caller, Spawned (length (tasks S))),
        (Caller, Registered job)]"
    and later: "\<forall>cs' s''. run cs' s' = Some s'' \<and> Stop (ID job) \<notin> set cs' \<longrightarrow>
        tpc (tasks s'' ! length (tasks S)) = AwaitStop \<and>
        actions_of (Task (length (tasks S))) (trace s'') = []"
    by blast
  have s': "s' = S'" using st by (simp add: S'_def)
  have job: "job = \<lparr>ID = 2, Name = ''rpc'', Description = ''client listener'',
      Protocol = ''tcp'', Port = 9001, JobCtrl = 1\<rparr>"
  proof -
    have "trace s' = trace (snd (the (jobStartClientListener T ''127.0.0.1'' 9001 S)))"
      using st by simp
    also have "\<dots> = trace S @
       [(Caller, Bound ''127.0.0.1'' 9001), (Caller, Allocated 2),
        (Caller, ChanMade 1), (Caller, Spawned 1),
        (Caller, Registered \<lparr>ID = 2, Name = ''rpc'', Description = ''client listener'',
      Protocol = ''tcp'', Port = 9001, JobCtrl = 1\<rparr>)]"
      using S by (simp add: start_success [of T "''127.0.0.1''" 9001 8 S, OF ok])
    finally show ?thesis using tr by simp
  qed
  have "Stop (ID job) \<notin> set [Sched 1, Stop 1, Sched 0, Sched 1]" by (simp add: job)
  with later r'' s' have idle: "tpc (tasks S'' ! length (tasks S)) = AwaitStop \<and>
        actions_of (Task (length (tasks S))) (trace S'') = []"
    by blast
  from r st tr S r'' idle other show ?thesis
    unfolding S''_def [symmetric] S'_def [symmetric] S_def [symmetric] T_def [symmetric]
    by (simp add: job s')
qed

text \<open>
  C4, as stated, fails: a job is started successfully from the initial state, and no event
  at all is handed to the broker, in particular no "job started" event; the actions of
  the call are the bind, the allocation, the channel, the goroutine and the registration,
  none of them a publication.
\<close>

theorem no_started_event_counterexample:
  "map_option fst (jobStartClientListener (bind_ok 7) ''0.0.0.0'' 9000 init) = Some (1, None) \<and>
   published (snd (the (jobStartClientListener (bind_ok 7) ''0.0.0.0'' 9000 init))) = [] \<and>
   trace (snd (the (jobStartClientListener (bind_ok 7) ''0.0.0.0'' 9000 init))) =
     [(Caller, Bound ''0.0.0.0'' 9000), (Caller, Allocated 1), (Caller, ChanMade 0),
      (Caller, Spawned 0),
      (Caller, Registered \<lparr>ID = 1, Name = ''rpc'', Description = ''client listener'',
                            Protocol = ''tcp'', Port = 9000, JobCtrl = 0\<rparr>)]"
  by (simp add: eval_defs bind_ok_def)

text \<open>
  C4, amended. In every reachable state a call of \<^verbatim>\<open>jobStartClientListener\<close> publishes no
  event, whether the bind succeeds or fails. The events handed to the broker are exactly
  the "job stopped" events of the supervising goroutines that have finished, each
  carrying the job of its goroutine, none twice: the event of a finished goroutine occurs
  exactly once. And the event is produced for every job that is stopped: for a registered
  job no "stopped" event has been published yet; stopping it and running its goroutine
  adds exactly its one "stopped" event and removes it from the registry; and after the
  stop, whatever else the server does in between, the goroutine can always run to its
  end, where the event of the job has been published exactly once.
\<close>

theorem only_stopped_events:
  assumes "run cs init = Some s"
  shows "(\<forall>T bindIface port r s'.
            jobStartClientListener T bindIface port s = Some (r, s') \<longrightarrow>
              published s' = published s) \<and>
         mset (published s) =
           mset (map (\<lambda>t. \<lparr>Job = tjob t, EventType = JobStopped\<rparr>)
                  (filter (\<lambda>t. tpc t = Finished) (tasks s))) \<and>
         (\<forall>e \<in> set (published s). EventType e = JobStopped) \<and>
         distinct (published s) \<and>
         (\<forall>k<length (tasks s). tpc (tasks s ! k) = Finished \<longrightarrow>
            count_list (published s) \<lparr>Job = tjob (tasks s ! k), EventType = JobStopped\<rparr> = 1) \<and>
         (\<forall>i job. Active s i = Some job \<longrightarrow>
            \<lparr>Job = job, EventType = JobStopped\<rparr> \<notin> set (published s) \<and>
            (\<exists>k<length (tasks s). tjob (tasks s ! k) = job \<and>
               (\<exists>s'. run [Stop i, Sched k, Sched k, Sched k, Sched k, Sched k] s = Some s' \<and>
                  published s' = published s @ [\<lparr>Job = job, EventType = JobStopped\<rparr>] \<and>
                  Active s' = (Active s)(i := None) \<and>
                  tpc (tasks s' ! k) = Finished) \<and>
               (\<forall>cs' s''. run (Stop i # cs') s = Some s'' \<longrightarrow>
                  (\<exists>s3. run [Sched k, Sched k, Sched k, Sched k, Sched k] s'' = Some s3 \<and>
                     tpc (tasks s3 ! k) = Finished \<and>
                     count_list (published s3) \<lparr>Job = job, EventType = JobStopped\<rparr> = 1 \<and>
                     Active s3 i = None))))"
proof -
  have g: "good s" using assms by (rule reachable_good)
  then have ids: "ids_ok s" and ev: "ev_ok s" and sup: "sup_ok s" by (simp_all add: good_def)
  have fresh: "Active s (jobID s + 1) = None" using ids by (rule ids_ok_fresh)
  have 1: "published s' = published s"
    if "jobStartClientListener T bindIface port s = Some (r, s')" for T bindIface port r s'
  proof (cases "T bindIface port")
    case (Inl e)
    with that show ?thesis by (auto simp: start_failure emit_def)
  next
    case (Inr ln)
    from start_success [of T bindIface port ln s, OF Inr fresh] that show ?thesis by auto
  qed
  have 2: "mset (published s) =
           mset (map (\<lambda>t. \<lparr>Job = tjob t, EventType = JobStopped\<rparr>)
                  (filter (\<lambda>t. tpc t = Finished) (tasks s)))"
  proof -
    have "stop_event = (\<lambda>t. \<lparr>Job = tjob t, EventType = JobStopped\<rparr>)"
      by (simp add: fun_eq_iff stop_event_def StoppedEvent_def)
    with ev show ?thesis by (simp add: ev_ok_def)
  qed
  have "set (published s) = set (map (\<lambda>t. \<lparr>Job = tjob t, EventType = JobStopped\<rparr>)
                  (filter (\<lambda>t. tpc t = Finished) (tasks s)))"
    using 2 by (rule mset_eq_setD)
  then have 3: "\<forall>e \<in> set (published s). EventType e = JobStopped" by auto
  have 4: "distinct (published s)" using g by (rule published_distinct)
  have 5: "\<forall>k<length (tasks s). tpc (tasks s ! k) = Finished \<longrightarrow>
            count_list (published s) \<lparr>Job = tjob (tasks s ! k), EventType = JobStopped\<rparr> = 1"
    using finished_event_once [OF g] by blast
  have 6: "\<lparr>Job = job, EventType = JobStopped\<rparr> \<notin> set (published s) \<and>
            (\<exists>k<length (tasks s). tjob (tasks s ! k) = job \<and>
               (\<exists>s'. run [Stop i, Sched k, Sched k, Sched k, Sched k, Sched k] s = Some s' \<and>
                  published s' = published s @ [\<lparr>Job = job, EventType = JobStopped\<rparr>] \<and>
                  Active s' = (Active s)(i := None) \<and>
                  tpc (tasks s' ! k) = Finished) \<and>
               (\<forall>cs' s''. run (Stop i # cs') s = Some s'' \<longrightarrow>
                  (\<exists>s3. run [Sched k, Sched k, Sched k, Sched k, Sched k] s'' = Some s3 \<and>
                     tpc (tasks s3 ! k) = Finished \<and>
                     count_list (published s3) \<lparr>Job = job, EventType = JobStopped\<rparr> = 1 \<and>
                     Active s3 i = None)))"
    if a: "Active s i = Some job" for i job
  proof -
    from stop_then_finish [OF g a] obtain k where
      k: "k < length (tasks s)" "tjob (tasks s ! k) = job"
      and one: "\<exists>s'. run [Stop i, Sched k, Sched k, Sched k, Sched k, Sched k] s = Some s' \<and>
        published s' = published s @ [\<lparr>Job = job, EventType = JobStopped\<rparr>] \<and>
        Active s' = (Active s)(i := None) \<and>
        tpc (tasks s' ! k) = Finished"
      by blast
    from stop_never_lost [OF g a] obtain k' where
      k': "k' < length (tasks s)" "tjob (tasks s ! k') = job"
      and all: "\<forall>cs' s''. run (Stop i # cs') s = Some s'' \<longrightarrow>
        (\<exists>s3. run [Sched k', Sched k', Sched k', Sched k', Sched k'] s'' = Some s3 \<and>
           tpc (tasks s3 ! k') = Finished \<and>
           count_list (published s3) \<lparr>Job = job, EventType = JobStopped\<rparr> = 1 \<and>
           Active s3 i = None)"
      by blast
    have "k' = k" using sup_ok_unique [OF sup k'(1) k(1)] k'(2) k(2) by simp
    with k one all registered_not_published [OF g a] show ?thesis by blast
  qed
  from 1 2 3 4 5 6 show ?thesis by blast
qed

text \<open>
  Two jobs are registered and nothing is published. Stopping job 2 and running goroutine
  1 publishes the one "stopped" event of job 2; so does a run in which job 1 is stopped
  and both goroutines are scheduled in between.
\<close>

theorem only_stopped_events_witness:
  "run [StartListener ''0.0.0.0'' 9000 (Inr 7), StartListener ''0.0.0.0'' 9001 (Inr 8)] init \<noteq> None \<and>
   Active (the (run [StartListener ''0.0.0.0'' 9000 (Inr 7),
                     StartListener ''0.0.0.0'' 9001 (Inr 8)] init)) 2 =
     Some \<lparr>ID = 2, Name = ''rpc'', Description = ''client listener'', Protocol = ''tcp'',
           Port = 9001, JobCtrl = 1\<rparr> \<and>
   published (the (run [StartListener ''0.0.0.0'' 9000 (Inr 7),
                        StartListener ''0.0.0.0'' 9001 (Inr 8)] init)) = [] \<and>
   published (the (run [Stop 2, Sched 1, Sched 1, Sched 1, Sched 1, Sched 1]
     (the (run [StartListener ''0.0.0.0'' 9000 (Inr 7),
                StartListener ''0.0.0.0'' 9001 (Inr 8)] init)))) =
     [\<lparr>Job = \<lparr>ID = 2, Name = ''rpc'', Description = ''client listener'', Protocol = ''tcp'',
              Port = 9001, JobCtrl = 1\<rparr>, EventType = JobStopped\<rparr>] \<and>
   run [Stop 2, Sched 0, Stop 1, Sched 1, Sched 0]
     (the (run [StartListener ''0.0.0.0'' 9000 (Inr 7),
                StartListener ''0.0.0.0'' 9001 (Inr 8)] init)) \<noteq> None \<and>
   count_list
     (published (the (run [Sched 1, Sched 1, Sched 1, Sched 1, Sched 1]
        (the (run [Stop 2, Sched 0, Stop 1, Sched 1, Sched 0]
           (the (run [StartListener ''0.0.0.0'' 9000 (Inr 7),
                      StartListener ''0.0.0.0'' 9001 (Inr 8)] init)))))))
     \<lparr>Job = \<lparr>ID = 2, Name = ''rpc'', Description = ''client listener'', Protocol = ''tcp'',
             Port = 9001, JobCtrl = 1\<rparr>, EventType = JobStopped\<rparr> = 1"
proof -
  define S where "S = the (run [StartListener ''0.0.0.0'' 9000 (Inr 7),
                                StartListener ''0.0.0.0'' 9001 (Inr 8)] init)"
  define J where "J = \<lparr>ID = 2, Name = ''rpc'', Description = ''client listener'',
    Protocol = ''tcp'', Port = (9001 :: 16 word), JobCtrl = (1 :: nat)\<rparr>"
  define S2 where "S2 = the (run [Stop 2, Sched 0, Stop 1, Sched 1, Sched 0] S)"
  have r: "run [StartListener ''0.0.0.0'' 9000 (Inr 7),
                StartListener ''0.0.0.0'' 9001 (Inr 8)] init = Some S"
    unfolding S_def by (simp add: eval_defs)
  have a: "Active S 2 = Some J" and p: "published S = []"
    and t: "length (tasks S) = 2" "ID (tjob (tasks S ! 0)) = 1"
    unfolding S_def J_def by (simp_all add: eval_defs)
  have r2: "run (Stop 2 # [Sched 0, Stop 1, Sched 1, Sched 0]) S = Some S2"
    unfolding S2_def S_def by (simp add: eval_defs)
  from only_stopped_events [OF r]
  have "\<forall>i job. Active S i = Some job \<longrightarrow>
            \<lparr>Job = job, EventType = JobStopped\<rparr> \<notin> set (published S) \<and>
            (\<exists>k<length (tasks S). tjob (tasks S ! k) = job \<and>
               (\<exists>s'. run [Stop i, Sched k, Sched k, Sched k, Sched k, Sched k] S = Some s' \<and>
                  published s' = published S @ [\<lparr>Job = job, EventType = JobStopped\<rparr>] \<and>
                  Active s' = (Active S)(i := None) \<and>
                  tpc (tasks s' ! k) = Finished) \<and>
               (\<forall>cs' s''. run (Stop i # cs') S = Some s'' \<longrightarrow>
                  (\<exists>s3. run [Sched k, Sched k, Sched k, Sched k, Sched k] s'' = Some s3 \<and>
                     tpc (tasks s3 ! k) = Finished \<and>
                     count_list (published s3) \<lparr>Job = job, EventType = JobStopped\<rparr> = 1 \<and>
                     Active s3 i = None)))"
    by (elim conjE)
  then have "\<exists>k<length (tasks S). tjob (tasks S ! k) = J \<and>
               (\<exists>s'. run [Stop 2, Sched k, Sched k, Sched k, Sched k, Sched k] S = Some s' \<and>
                  published s' = published S @ [\<lparr>Job = J, EventType = JobStopped\<rparr>] \<and>
                  Active s' = (Active S)(2 := None) \<and>
                  tpc (tasks s' ! k) = Finished) \<and>
               (\<forall>cs' s''. run (Stop 2 # cs') S = Some s'' \<longrightarrow>
                  (\<exists>s3. run [Sched k, Sched k, Sched k, Sched k, Sched k] s'' = Some s3 \<and>
                     tpc (tasks s3 ! k) = Finished \<and>
                     count_list (published s3) \<lparr>Job = J, EventType = JobStopped\<rparr> = 1 \<and>
                     Active s3 2 = None))"
    using a by (elim allE [of _ 2] allE [of _ J] impE conjE)
  then obtain k where
    k: "k < length (tasks S)" "tjob (tasks S ! k) = J"
    and one: "\<exists>s'. run [Stop 2, Sched k, Sched k, Sched k, Sched k, Sched k] S = Some s' \<and>
                  published s' = published S @ [\<lparr>Job = J, EventType = JobStopped\<rparr>] \<and>
                  Active s' = (Active S)(2 := None) \<and>
                  tpc (tasks s' ! k) = Finished"
    and all: "\<forall>cs' s''. run (Stop 2 # cs') S = Some s'' \<longrightarrow>
                  (\<exists>s3. run [Sched k, Sched k, Sched k, Sched k, Sched k] s'' = Some s3 \<and>
                     tpc (tasks s3 ! k) = Finished \<and>
                     count_list (published s3) \<lparr>Job = J, EventType = JobStopped\<rparr> = 1 \<and>
                     Active s3 2 = None)"
    by blast
  have k1: "k = 1"
  proof -
    from k t have "k = 0 \<or> k = 1" by auto
    moreover have "k \<noteq> 0"
    proof
      assume "k = 0"
      with k(2) have "ID (tjob (tasks S ! 0)) = ID J" by simp
      with t(2) show False by (simp add: J_def)
    qed
    ultimately show ?thesis by simp
  qed
  from one p have 1: "published (the (run [Stop 2, Sched 1, Sched 1, Sched 1, Sched 1, Sched 1] S)) =
      [\<lparr>Job = J, EventType = JobStopped\<rparr>]"
    unfolding k1 by auto
  from all r2 have 2: "count_list
      (published (the (run [Sched 1, Sched 1, Sched 1, Sched 1, Sched 1] S2)))
      \<lparr>Job = J, EventType = JobStopped\<rparr> = 1"
    unfolding k1 by fastforce
  have 3: "run [Stop 2, Sched 0, Stop 1, Sched 1, Sched 0] S \<noteq> None" using r2 by simp
  from r a p 1 2 3 show ?thesis
    unfolding S2_def [symmetric] S_def [symmetric] J_def [symmetric]
    by (simp del: run.simps)
qed

text \<open>
  C8. In every reachable state a failed bind makes \<^verbatim>\<open>jobStartClientListener\<close> return -1
  with the error, a successful bind makes it return an identifier that is at least 1, and
  every identifier the allocator has handed out so far is at least 1: -1 is never the
  identifier of a job.
\<close>

theorem bind_failure_sentinel:
  assumes "run cs init = Some s"
  shows "(\<forall>err. T bindIface port = Inl err \<longrightarrow>
            map_option fst (jobStartClientListener T bindIface port s) = Some (- 1, Some err)) \<and>
         (\<forall>ln. T bindIface port = Inr ln \<longrightarrow>
            (\<exists>i s'. jobStartClientListener T bindIface port s = Some ((i, None), s') \<and>
               1 \<le> i \<and> i \<noteq> - 1)) \<and>
         (\<forall>i \<in> set (allocated (trace s)). 1 \<le> i \<and> i \<noteq> - 1)"
proof -
  have g: "good s" using assms by (rule reachable_good)
  then have ids: "ids_ok s" and al: "alloc_ok s" by (simp_all add: good_def)
  have fresh: "Active s (jobID s + 1) = None" using ids by (rule ids_ok_fresh)
  have c: "0 \<le> jobID s" using ids by (rule ids_ok_counter)
  have 1: "map_option fst (jobStartClientListener T bindIface port s) = Some (- 1, Some err)"
    if "T bindIface port = Inl err" for err
    using that by (simp add: start_failure)
  have 2: "\<exists>i s'. jobStartClientListener T bindIface port s = Some ((i, None), s') \<and>
               1 \<le> i \<and> i \<noteq> - 1"
    if "T bindIface port = Inr ln" for ln
    using start_success [of T bindIface port ln s, OF that fresh] c by simp
  have 3: "\<forall>i \<in> set (allocated (trace s)). 1 \<le> i \<and> i \<noteq> - 1"
    using al by (simp add: alloc_ok_def)
  from 1 2 3 show ?thesis by blast
qed

text \<open>
  With job 1 running: the bind of port 9000 fails and returns -1, the bind of port 9001
  succeeds and returns 2.
\<close>

theorem bind_failure_sentinel_witness:
  "run [StartListener ''0.0.0.0'' 9000 (Inr 7)] init \<noteq> None \<and>
   map_option fst
     (jobStartClientListener (\<lambda>_ p. if p = 9000 then Inl (TransportError ''address already in use'') else Inr 8)
        ''0.0.0.0'' 9000 (the (run [StartListener ''0.0.0.0'' 9000 (Inr 7)] init))) =
     Some (- 1, Some (TransportError ''address already in use'')) \<and>
   map_option fst
     (jobStartClientListener (\<lambda>_ p. if p = 9000 then Inl (TransportError ''address already in use'') else Inr 8)
        ''0.0.0.0'' 9001 (the (run [StartListener ''0.0.0.0'' 9000 (Inr 7)] init))) =
     Some (2, None) \<and>
   allocated (trace (the (run [StartListener ''0.0.0.0'' 9000 (Inr 7)] init))) = [1]"
proof -
  define S where "S = the (run [StartListener ''0.0.0.0'' 9000 (Inr 7)] init)"
  define T :: "string \<Rightarrow> 16 word \<Rightarrow> error + listener"
    where "T = (\<lambda>_ p. if p = 9000 then Inl (TransportError ''address already in use'') else Inr 8)"
  have r: "run [StartListener ''0.0.0.0'' 9000 (Inr 7)] init = Some S"
    unfolding S_def by (simp add: eval_defs)
  have a: "allocated (trace S) = [1]" "jobID S = 1"
    unfolding S_def by (simp_all add: eval_defs)
  have f: "T ''0.0.0.0'' 9000 = Inl (TransportError ''address already in use'')"
    and ok: "T ''0.0.0.0'' 9001 = Inr 8"
    by (simp_all add: T_def)
  from bind_failure_sentinel [OF r, of T "''0.0.0.0''" 9000] f
  have 1: "map_option fst (jobStartClientListener T ''0.0.0.0'' 9000 S) =
      Some (- 1, Some (TransportError ''address already in use''))"
    by blast
  from bind_failure_sentinel [OF r, of T "''0.0.0.0''" 9001] ok
  obtain i s' where "jobStartClientListener T ''0.0.0.0'' 9001 S = Some ((i, None), s')"
    by blast
  moreover have "Active S (jobID S + 1) = None" unfolding S_def by (simp add: eval_defs)
  ultimately have 2: "map_option fst (jobStartClientListener T ''0.0.0.0'' 9001 S) = Some (2, None)"
    using start_success [of T "''0.0.0.0''" 9001 8 S, OF ok] a by simp
  from r 1 2 a show ?thesis unfolding S_def [symmetric] T_def [symmetric] by simp
qed

text \<open>
  C5. In every reachable state, when the bind succeeds, the job constructed has the next
  identifier of the allocator, the name \<open>rpc\<close>, the description \<open>client listener\<close>, the
  protocol \<open>tcp\<close>, the requested port and a new stop channel; it is registered under its
  identifier, and that identifier is the one returned. The identifier is fresh: the
  allocator has never handed it out and neither a registry entry nor a goroutine carries
  it. The stop channel is fresh: it is allocated by this call, no registered job and no
  goroutine holds it, and nothing has been sent on it.
\<close>

theorem launched_job_fields:
  assumes "run cs init = Some s" and "T bindIface port = Inr ln"
  shows "\<exists>s' job.
     jobStartClientListener T bindIface port s = Some ((ID job, None), s') \<and>
     job = \<lparr>ID = jobID s + 1, Name = ''rpc'', Description = ''client listener'',
            Protocol = ''tcp'', Port = port, JobCtrl = nchans s\<rparr> \<and>
     Active s' (ID job) = Some job \<and>
     ID job \<notin> set (allocated (trace s)) \<and>
     allocated (trace s') = allocated (trace s) @ [ID job] \<and>
     Active s (ID job) = None \<and>
     (\<forall>k<length (tasks s). ID (tjob (tasks s ! k)) \<noteq> ID job) \<and>
     (\<forall>i j. Active s i = Some j \<longrightarrow> JobCtrl j \<noteq> JobCtrl job) \<and>
     (\<forall>k<length (tasks s). JobCtrl (tjob (tasks s ! k)) \<noteq> JobCtrl job) \<and>
     nchans s \<le> JobCtrl job \<and> JobCtrl job < nchans s' \<and>
     chans s' (JobCtrl job) = []"
proof -
  have g: "good s" using assms(1) by (rule reachable_good)
  then have ids: "ids_ok s" and al: "alloc_ok s" and sup: "sup_ok s"
    by (simp_all add: good_def)
  have fresh: "Active s (jobID s + 1) = None" using ids by (rule ids_ok_fresh)
  let ?job = "\<lparr>ID = jobID s + 1, Name = ''rpc'', Description = ''client listener'',
             Protocol = ''tcp'', Port = port, JobCtrl = nchans s\<rparr>"
  let ?s' = "snd (the (jobStartClientListener T bindIface port s))"
  note st = start_success [of T bindIface port ln s, OF assms(2) fresh]
  have 1: "jobStartClientListener T bindIface port s = Some ((ID ?job, None), ?s')"
    using st by simp
  have 2: "Active ?s' (ID ?job) = Some ?job" "chans ?s' (JobCtrl ?job) = []"
    "JobCtrl ?job < nchans ?s'"
    using st by simp_all
  have 3: "ID ?job \<notin> set (allocated (trace s))"
    using al by (simp add: alloc_ok_def)
  have 4: "allocated (trace ?s') = allocated (trace s) @ [ID ?job]"
    using st by (simp add: allocated_append)
  have 5: "\<forall>k<length (tasks s). ID (tjob (tasks s ! k)) \<noteq> ID ?job"
    using sup_ok_task [OF sup] by fastforce
  have 6: "\<forall>i j. Active s i = Some j \<longrightarrow> JobCtrl j \<noteq> JobCtrl ?job"
    using ids_okD [OF ids] by fastforce
  have 7: "\<forall>k<length (tasks s). JobCtrl (tjob (tasks s ! k)) \<noteq> JobCtrl ?job"
    using sup_ok_task [OF sup] by fastforce
  from 1 2 3 4 5 6 7 fresh show ?thesis by (intro exI [of _ ?s'] exI [of _ ?job]) simp
qed

text \<open>
  A listener on port 31337 after job 1 has been asked to stop: job 2 with channel 1.
\<close>

theorem launched_job_fields_witness:
  "run [StartListener ''0.0.0.0'' 9000 (Inr 7), Stop 1] init \<noteq> None \<and>
   jobStartClientListener (\<lambda>_ _. Inr 8) ''10.0.0.1'' 31337
     (the (run [StartListener ''0.0.0.0'' 9000 (Inr 7), Stop 1] init)) \<noteq> None \<and>
   fst (the (jobStartClientListener (\<lambda>_ _. Inr 8) ''10.0.0.1'' 31337
     (the (run [StartListener ''0.0.0.0'' 9000 (Inr 7), Stop 1] init)))) = (2, None) \<and>
   Active (snd (the (jobStartClientListener (\<lambda>_ _. Inr 8) ''10.0.0.1'' 31337
     (the (run [StartListener ''0.0.0.0'' 9000 (Inr 7), Stop 1] init))))) 2 =
     Some \<lparr>ID = 2, Name = ''rpc'', Description = ''client listener'', Protocol = ''tcp'',
           Port = 31337, JobCtrl = 1\<rparr>"
proof -
  define S where "S = the (run [StartListener ''0.0.0.0'' 9000 (Inr 7), Stop 1] init)"
  define T :: "string \<Rightarrow> 16 word \<Rightarrow> error + listener" where "T = (\<lambda>_ _. Inr 8)"
  have r: "run [StartListener ''0.0.0.0'' 9000 (Inr 7), Stop 1] init = Some S"
    unfolding S_def by (simp add: eval_defs)
  have S: "jobID S = 1" "nchans S = 1"
    unfolding S_def by (simp_all add: eval_defs)
  have ok: "T ''10.0.0.1'' 31337 = Inr 8" by (simp add: T_def)
  from launched_job_fields [where T = T, OF r ok] obtain s' job where
    "jobStartClientListener T ''10.0.0.1'' 31337 S = Some ((ID job, None), s')"
    "job = \<lparr>ID = jobID S + 1, Name = ''rpc'', Description = ''client listener'',
            Protocol = ''tcp'', Port = 31337, JobCtrl = nchans S\<rparr>"
    "Active s' (ID job) = Some job"
    by blast
  with r S show ?thesis unfolding S_def [symmetric] T_def [symmetric] by simp
qed

text \<open>
  C6. With the allocator of the spec, in every reachable state (every interleaving of
  operator calls and goroutine steps) the identifiers handed out so far are \<open>1, 2, ...\<close>
  up to the counter: strictly increasing, with no duplicate, starting from 1. The next call
  returns a larger identifier than any before, and the call after it a larger one again.
  No two entries of the registry hold jobs with the same identifier.
\<close>

theorem allocator_strictly_increasing:
  assumes "run cs init = Some s"
  shows "allocated (trace s) = [1..jobID s] \<and>
         sorted_wrt (<) (allocated (trace s)) \<and> distinct (allocated (trace s)) \<and>
         fst (GetJobID who init) = 1 \<and>
         fst (GetJobID who s) = jobID s + 1 \<and>
         jobID (snd (GetJobID who s)) = fst (GetJobID who s) \<and>
         (\<forall>i \<in> set (allocated (trace s)). i < fst (GetJobID who s)) \<and>
         fst (GetJobID who s) < fst (GetJobID who' (snd (GetJobID who s))) \<and>
         (\<forall>i i' j j'. Active s i = Some j \<and> Active s i' = Some j' \<and> i \<noteq> i' \<longrightarrow> ID j \<noteq> ID j')"
proof -
  have g: "good s" using assms by (rule reachable_good)
  then have ids: "ids_ok s" and al: "alloc_ok s" by (simp_all add: good_def)
  have 1: "allocated (trace s) = [1..jobID s]" using al by (simp add: alloc_ok_def)
  have 2: "\<forall>i i' j j'. Active s i = Some j \<and> Active s i' = Some j' \<and> i \<noteq> i' \<longrightarrow> ID j \<noteq> ID j'"
    using ids_okD [OF ids] by metis
  from 2 show ?thesis unfolding 1 by (simp add: GetJobID_def emit_def init_def Let_def)
qed

text \<open>
  Three listeners are started: the identifiers are 1, 2 and 3, and the next one is 4.
\<close>

theorem allocator_strictly_increasing_witness:
  "run [StartListener ''0.0.0.0'' 9000 (Inr 7), StartListener ''0.0.0.0'' 9001 (Inr 8),
        StartListener ''0.0.0.0'' 9002 (Inr 9)] init \<noteq> None \<and>
   allocated (trace (the (run [StartListener ''0.0.0.0'' 9000 (Inr 7),
        StartListener ''0.0.0.0'' 9001 (Inr 8), StartListener ''0.0.0.0'' 9002 (Inr 9)] init))) =
     [1, 2, 3] \<and>
   fst (GetJobID Caller (the (run [StartListener ''0.0.0.0'' 9000 (Inr 7),
        StartListener ''0.0.0.0'' 9001 (Inr 8), StartListener ''0.0.0.0'' 9002 (Inr 9)] init))) = 4"
proof -
  define S where "S = the (run [StartListener ''0.0.0.0'' 9000 (Inr 7),
        StartListener ''0.0.0.0'' 9001 (Inr 8), StartListener ''0.0.0.0'' 9002 (Inr 9)] init)"
  have r: "run [StartListener ''0.0.0.0'' 9000 (Inr 7),
        StartListener ''0.0.0.0'' 9001 (Inr 8), StartListener ''0.0.0.0'' 9002 (Inr 9)] init = Some S"
    unfolding S_def by (simp add: eval_defs)
  have c: "jobID S = 3" unfolding S_def by (simp add: eval_defs)
  from allocator_strictly_increasing [OF r, of Caller Caller]
  have "allocated (trace S) = [1..jobID S]" "fst (GetJobID Caller S) = jobID S + 1"
    by simp_all
  then have "allocated (trace S) = [1, 2, 3]" "fst (GetJobID Caller S) = 4"
    unfolding c by (simp_all add: upto_rec1)
  with r show ?thesis unfolding S_def [symmetric] by simp
qed

text \<open>
  C7. With \<open>StopJob\<close> of the spec: on an identifier absent from the registry it returns
  not-found and the state, the registry included, is unchanged; on an identifier present
  it returns no error and sends on the stop channel of that job once: one send is added to
  the trace, one value is offered on the channel, and nothing else changes.
\<close>

theorem StopJob_not_found_or_one_signal:
  "(Active s i = None \<longrightarrow> StopJob i s = (Some NotFound, s)) \<and>
   (\<forall>job. Active s i = Some job \<longrightarrow>
      (\<exists>s'. StopJob i s = (None, s') \<and>
         chans s' = (chans s)(JobCtrl job := chans s (JobCtrl job) @ [True]) \<and>
         trace s' = trace s @ [(Caller, Sent (JobCtrl job) True)] \<and>
         sends_on (JobCtrl job) (trace s') = Suc (sends_on (JobCtrl job) (trace s)) \<and>
         Active s' = Active s \<and> jobID s' = jobID s \<and> published s' = published s \<and>
         nchans s' = nchans s \<and> closed s' = closed s \<and> tasks s' = tasks s))"
  by (simp add: StopJob_def send_def emit_def sends_on_append)

text \<open>
  With job 1 registered: stopping job 2 is not-found, stopping job 1 offers one value on
  channel 0.
\<close>

theorem StopJob_not_found_or_one_signal_witness:
  "run [StartListener ''0.0.0.0'' 9000 (Inr 7)] init \<noteq> None \<and>
   Active (the (run [StartListener ''0.0.0.0'' 9000 (Inr 7)] init)) 2 = None \<and>
   StopJob 2 (the (run [StartListener ''0.0.0.0'' 9000 (Inr 7)] init)) =
     (Some NotFound, the (run [StartListener ''0.0.0.0'' 9000 (Inr 7)] init)) \<and>
   Active (the (run [StartListener ''0.0.0.0'' 9000 (Inr 7)] init)) 1 \<noteq> None \<and>
   fst (StopJob 1 (the (run [StartListener ''0.0.0.0'' 9000 (Inr 7)] init))) = None \<and>
   chans (snd (StopJob 1 (the (run [StartListener ''0.0.0.0'' 9000 (Inr 7)] init)))) 0 = [True]"
proof -
  define S where "S = the (run [StartListener ''0.0.0.0'' 9000 (Inr 7)] init)"
  have r: "run [StartListener ''0.0.0.0'' 9000 (Inr 7)] init \<noteq> None"
    by (simp add: eval_defs)
  have a: "Active S 2 = None"
    "Active S 1 = Some \<lparr>ID = 1, Name = ''rpc'', Description = ''client listener'',
       Protocol = ''tcp'', Port = 9000, JobCtrl = 0\<rparr>"
    "chans S 0 = []"
    unfolding S_def by (simp_all add: eval_defs)
  from StopJob_not_found_or_one_signal [of S 2] a
  have 1: "StopJob 2 S = (Some NotFound, S)" by blast
  from StopJob_not_found_or_one_signal [of S 1] a(2) obtain s' where
    "StopJob 1 S = (None, s')"
    "chans s' = (chans S)(JobCtrl \<lparr>ID = 1, Name = ''rpc'', Description = ''client listener'',
       Protocol = ''tcp'', Port = 9000, JobCtrl = 0\<rparr> :=
         chans S (JobCtrl \<lparr>ID = 1, Name = ''rpc'', Description = ''client listener'',
       Protocol = ''tcp'', Port = 9000, JobCtrl = 0\<rparr>) @ [True])"
    by blast
  then have 2: "fst (StopJob 1 S) = None" "chans (snd (StopJob 1 S)) 0 = [True]"
    using a by simp_all
  from r a 1 2 show ?thesis unfolding S_def [symmetric] by simp
qed

text \<open>
  C9. \<^verbatim>\<open>startMultiplayerModeCmd\<close> converts the \<open>lport\<close> flag with \<^verbatim>\<open>uint16(...)\<close>: for every
  value \<open>v\<close> of the flag (a 64-bit \<open>int\<close>, read as two's complement) the port passed to
  the transport is \<open>v mod 2^16\<close>, and when the bind succeeds this is the port stored in
  the registered job.
\<close>

theorem lport_truncated_to_16_bits:
  assumes "run cs init = Some s"
  shows "\<exists>s' p. startMultiplayerModeCmd T ctx s = Some s' \<and>
      p = ucast (FlagsInt ctx ''lport'') \<and>
      uint p = sint (FlagsInt ctx ''lport'') mod 2 ^ 16 \<and>
      trace s' ! length (trace s) = (Caller, Bound (FlagsString ctx ''server'') p) \<and>
      (\<forall>ln. T (FlagsString ctx ''server'') p = Inr ln \<longrightarrow>
         map_option Port (Active s' (jobID s + 1)) = Some p)"
proof -
  have g: "good s" using assms by (rule reachable_good)
  then have ids: "ids_ok s" by (simp add: good_def)
  have fresh: "Active s (jobID s + 1) = None" using ids by (rule ids_ok_fresh)
  let ?p = "ucast (FlagsInt ctx ''lport'') :: 16 word"
  let ?srv = "FlagsString ctx ''server''"
  show ?thesis
  proof (cases "T ?srv ?p")
    case (Inl e)
    then show ?thesis
      by (simp add: startMultiplayerModeCmd_def Let_def start_failure emit_def uint16_of_int64
          nth_append)
  next
    case (Inr ln)
    from start_success [of T ?srv ?p ln s, OF Inr fresh] Inr show ?thesis
      by (simp add: startMultiplayerModeCmd_def Let_def emit_def uint16_of_int64 nth_append)
  qed
qed

text \<open>
  The flag value 65536 binds port 0.
\<close>

theorem lport_truncated_to_16_bits_witness:
  "startMultiplayerModeCmd (\<lambda>_ p. if p = 0 then Inr 7 else Inl (TransportError ''unexpected port''))
     \<lparr>FlagsString = (\<lambda>_. ''0.0.0.0''), FlagsInt = (\<lambda>_. 65536)\<rparr> init \<noteq> None \<and>
   sint (65536 :: 64 word) mod 2 ^ 16 = 0 \<and>
   trace (the (startMultiplayerModeCmd (\<lambda>_ p. if p = 0 then Inr 7 else Inl (TransportError ''unexpected port''))
     \<lparr>FlagsString = (\<lambda>_. ''0.0.0.0''), FlagsInt = (\<lambda>_. 65536)\<rparr> init)) ! 0 =
     (Caller, Bound ''0.0.0.0'' 0) \<and>
   map_option Port
     (Active (the (startMultiplayerModeCmd (\<lambda>_ p. if p = 0 then Inr 7 else Inl (TransportError ''unexpected port''))
     \<lparr>FlagsString = (\<lambda>_. ''0.0.0.0''), FlagsInt = (\<lambda>_. 65536)\<rparr> init)) 1) = Some 0"
proof -
  define T :: "string \<Rightarrow> 16 word \<Rightarrow> error + listener"
    where "T = (\<lambda>_ p. if p = 0 then Inr 7 else Inl (TransportError ''unexpected port''))"
  define ctx where "ctx = \<lparr>FlagsString = (\<lambda>_. ''0.0.0.0''), FlagsInt = (\<lambda>_. 65536 :: 64 word)\<rparr>"
  have r: "run [] init = Some init" by simp
  have z: "(ucast (65536 :: 64 word) :: 16 word) = 0" by simp
  have m: "sint (65536 :: 64 word) mod 2 ^ 16 = 0" by simp
  from lport_truncated_to_16_bits [OF r, of T ctx] obtain s' p where
    st: "startMultiplayerModeCmd T ctx init = Some s'"
    and p: "p = ucast (FlagsInt ctx ''lport'')"
    and tr: "trace s' ! length (trace init) = (Caller, Bound (FlagsString ctx ''server'') p)"
    and reg: "\<forall>ln. T (FlagsString ctx ''server'') p = Inr ln \<longrightarrow>
         map_option Port (Active s' (jobID init + 1)) = Some p"
    by blast
  have p0: "p = 0" using p z by (simp add: ctx_def)
  have "T (FlagsString ctx ''server'') p = Inr 7" by (simp add: T_def p0)
  with reg have "map_option Port (Active s' (jobID init + 1)) = Some p" by blast
  with st tr m show ?thesis
    unfolding T_def [symmetric] ctx_def [symmetric] p0 by (simp add: init_def ctx_def)
qed

end
